theory Spec2Isabelle
  imports Main
begin

section \<open>JavaScript strings\<close>

text \<open>
  A JavaScript string is a sequence of UTF-16 code units. A code unit is modelled as a
  natural number (no arithmetic is done on code units, so no wrap-around arises), and a
  string as the list of its code units. \<open>js\<close> turns a literal into that list.
\<close>

type_synonym jsstring = "nat list"

definition js :: "string \<Rightarrow> jsstring" where
  "js s = map of_char s"

text \<open>
  \<open>String.prototype.trim\<close> and the regular-expression class \<open>\s\<close> use the same set:
  ECMAScript WhiteSpace (TAB, VT, FF, the space separators, U+FEFF) and LineTerminator
  (LF, CR, U+2028, U+2029).
\<close>

definition is_space :: "nat \<Rightarrow> bool" where
  "is_space c \<longleftrightarrow>
     (9 \<le> c \<and> c \<le> 13) \<or> c = 32 \<or> c = 160 \<or> c = 5760 \<or> (8192 \<le> c \<and> c \<le> 8202) \<or>
     c = 8232 \<or> c = 8233 \<or> c = 8239 \<or> c = 8287 \<or> c = 12288 \<or> c = 65279"

text \<open>The class \<open>\d\<close> (without the unicode flag): the ASCII digits.\<close>

definition is_digit :: "nat \<Rightarrow> bool" where
  "is_digit c \<longleftrightarrow> 48 \<le> c \<and> c \<le> 57"

definition trim :: "jsstring \<Rightarrow> jsstring" where
  "trim s = rev (dropWhile is_space (rev (dropWhile is_space s)))"

text \<open>\<open>Boolean(s)\<close> on a string: only the empty string is falsy.\<close>

definition truthy :: "jsstring \<Rightarrow> bool" where
  "truthy s \<longleftrightarrow> s \<noteq> []"

text \<open>The decimal rendering of a non-negative integer inside a template literal.\<close>

function toDecimal :: "nat \<Rightarrow> jsstring" where
  "toDecimal n = (if n < 10 then [48 + n] else toDecimal (n div 10) @ [48 + n mod 10])"
  by pat_completeness auto
termination
  by (relation "measure id") auto

declare toDecimal.simps [simp del]

text \<open>\<open>s.split(sep)\<close> for a one-character string separator; \<open>acc\<close> is the piece being read, reversed.\<close>

fun splitChar :: "nat \<Rightarrow> jsstring \<Rightarrow> jsstring \<Rightarrow> jsstring list" where
  "splitChar sep acc [] = [rev acc]"
| "splitChar sep acc (c # cs) =
     (if c = sep then rev acc # splitChar sep [] cs else splitChar sep (c # acc) cs)"

section \<open>Data model\<close>

record Recipe =
  id :: jsstring
  name :: jsstring
  category :: "jsstring option"
  area :: "jsstring option"
  instructions :: "jsstring option"
  ingredients :: "jsstring list"
  image :: "jsstring option"
  tags :: "jsstring list option"
  source :: "jsstring option"

text \<open>
  \<open>MealFromApi\<close>: the named fields, and \<open>indexed\<close> for the index signature
  \<open>[key: string]: string | null\<close>, read as \<open>meal[key]\<close>. \<open>None\<close> stands for both
  \<open>null\<close> and a missing key (\<open>undefined\<close>): the code treats them alike.
\<close>

record MealFromApi =
  idMeal :: jsstring
  strMeal :: jsstring
  strCategory :: "jsstring option"
  strArea :: "jsstring option"
  strInstructions :: "jsstring option"
  strMealThumb :: "jsstring option"
  strTags :: "jsstring option"
  strSource :: "jsstring option"
  indexed :: "jsstring \<Rightarrow> jsstring option"

section \<open>mapMealToRecipe\<close>

definition INGREDIENT_RANGE :: "nat list" where
  "INGREDIENT_RANGE = map (\<lambda>index. index + 1) [0..<20]"

definition ingredientKey :: "nat \<Rightarrow> jsstring" where
  "ingredientKey position = js ''strIngredient'' @ toDecimal position"

definition measureKey :: "nat \<Rightarrow> jsstring" where
  "measureKey position = js ''strMeasure'' @ toDecimal position"

text \<open>The callback of \<open>INGREDIENT_RANGE.map\<close>; \<open>None\<close> is its \<open>null\<close>.\<close>

definition ingredientAt :: "MealFromApi \<Rightarrow> nat \<Rightarrow> jsstring option" where
  "ingredientAt meal position =
     (let ingredient = indexed meal (ingredientKey position);
          measure = indexed meal (measureKey position)
      in case ingredient of
           None \<Rightarrow> None
         | Some ing \<Rightarrow>
             if \<not> truthy ing \<or> \<not> truthy (trim ing) then None
             else
               let cleanIngredient = trim ing;
                   cleanMeasure = map_option trim measure
               in (case cleanMeasure of
                     None \<Rightarrow> Some cleanIngredient
                   | Some cm \<Rightarrow>
                       if truthy cm \<and> cm \<noteq> js ''0''
                       then Some (cm @ js '' '' @ cleanIngredient)
                       else Some cleanIngredient))"

text \<open>\<open>.filter((value): value is string => Boolean(value))\<close>: drops \<open>null\<close> and the empty string.\<close>

fun filterBoolean :: "jsstring option list \<Rightarrow> jsstring list" where
  "filterBoolean [] = []"
| "filterBoolean (None # vs) = filterBoolean vs"
| "filterBoolean (Some s # vs) = (if truthy s then s # filterBoolean vs else filterBoolean vs)"

definition mapMealToRecipe :: "MealFromApi \<Rightarrow> Recipe" where
  "mapMealToRecipe meal =
     \<lparr> id = idMeal meal,
       name = strMeal meal,
       category = strCategory meal,
       area = strArea meal,
       instructions = strInstructions meal,
       ingredients = filterBoolean (map (ingredientAt meal) INGREDIENT_RANGE),
       image = strMealThumb meal,
       tags = map_option (\<lambda>t. filter truthy (map trim (splitChar 44 [] t))) (strTags meal),
       source = strSource meal \<rparr>"

section \<open>preparationSteps\<close>

text \<open>
  The regular expression \<open>/\r?\n+/\<close> tried at the start of \<open>s\<close>: the rest of \<open>s\<close> after the
  match, or \<open>None\<close> when it does not match. A carriage return (13) is taken only when a line
  feed (10) follows; the line feeds are taken greedily.
\<close>

fun afterSeparator :: "jsstring \<Rightarrow> jsstring option" where
  "afterSeparator [] = None"
| "afterSeparator (c # cs) =
     (if c = 13 then
        (case cs of
           [] \<Rightarrow> None
         | d # ds \<Rightarrow> if d = 10 then Some (dropWhile (\<lambda>x. x = 10) ds) else None)
      else if c = 10 then Some (dropWhile (\<lambda>x. x = 10) cs)
      else None)"

lemma afterSeparator_shorter: "afterSeparator s = Some r \<Longrightarrow> length r < length s"
proof (cases s)
  case Nil
  assume "afterSeparator s = Some r"
  with Nil show ?thesis by simp
next
  case (Cons c cs)
  assume a: "afterSeparator s = Some r"
  have le: "\<And>xs. length (dropWhile (\<lambda>x. x = (10::nat)) xs) \<le> length xs"
    by (rule length_dropWhile_le)
  show ?thesis
  proof (cases cs)
    case Nil
    with a Cons show ?thesis by (simp split: if_splits)
  next
    case (Cons d ds)
    with a \<open>s = c # cs\<close> le [of ds] le [of "d # ds"] show ?thesis
      by (auto split: if_splits simp del: dropWhile.simps)
  qed
qed

text \<open>
  \<open>text.split(/\r?\n+/)\<close>: the separator is tried at each position from left to right; where it
  matches, the piece read so far (\<open>acc\<close>, reversed) is emitted and reading resumes after the
  match. The last piece is always emitted, so the result is never empty.
\<close>

function splitLines :: "jsstring \<Rightarrow> jsstring \<Rightarrow> jsstring list" where
  "splitLines acc [] = [rev acc]"
| "splitLines acc (c # cs) =
     (case afterSeparator (c # cs) of
        Some rest \<Rightarrow> rev acc # splitLines [] rest
      | None \<Rightarrow> splitLines (c # acc) cs)"
  by pat_completeness auto
termination
proof (relation "measure (\<lambda>(acc, s). length s)")
  show "wf (measure (\<lambda>(acc, s). length s))" by simp
next
  fix acc :: jsstring and c cs rest
  assume "afterSeparator (c # cs) = Some rest"
  then have "length rest < length (c # cs)" by (rule afterSeparator_shorter)
  then show "(([], rest), (acc, c # cs)) \<in> measure (\<lambda>(acc, s). length s)" by simp
next
  fix acc :: jsstring and c cs
  show "((c # acc, cs), (acc, c # cs)) \<in> measure (\<lambda>(acc, s). length s)" by simp
qed

text \<open>
  \<open>step.replace(/^\d+[).]\s*/, "")\<close>: the digits are taken greedily; giving some back cannot
  help, because the character after a shorter run is a digit, not \<open>)\<close> (41) or \<open>.\<close> (46).
\<close>

definition stripMarker :: "jsstring \<Rightarrow> jsstring" where
  "stripMarker step =
     (case dropWhile is_digit step of
        [] \<Rightarrow> step
      | c # after \<Rightarrow>
          if takeWhile is_digit step \<noteq> [] \<and> (c = 41 \<or> c = 46)
          then dropWhile is_space after
          else step)"

text \<open>The body of the memo, as a function of \<open>selectedRecipe?.instructions\<close>.\<close>

definition segmentInstructions :: "jsstring option \<Rightarrow> jsstring list" where
  "segmentInstructions ins =
     (case ins of
        None \<Rightarrow> []
      | Some text \<Rightarrow>
          if \<not> truthy text then []
          else filter truthy (map (\<lambda>step. trim (stripMarker step)) (splitLines [] text)))"

definition preparationSteps :: "Recipe option \<Rightarrow> jsstring list" where
  "preparationSteps selectedRecipe = segmentInstructions (Option.bind selectedRecipe instructions)"

text \<open>\<open>steps.join("\n")\<close>.\<close>

fun joinLines :: "jsstring list \<Rightarrow> jsstring" where
  "joinLines [] = []"
| "joinLines [x] = x"
| "joinLines (x # y # ys) = x @ 10 # joinLines (y # ys)"

section \<open>loadRecipes\<close>

text \<open>A thrown value: an \<open>Error\<close> instance with its message, or any other value.\<close>

datatype thrown = ErrorObj jsstring | NonError

text \<open>
  What \<open>payload?.meals\<close> can be: \<open>undefined\<close> (the payload is nullish or has no such
  property), \<open>null\<close>, an array (of meals, as \<open>mapMealToRecipe\<close> is typed), or another value.
\<close>

datatype field_value = FUndefined | FNull | FArray "MealFromApi list" | FOther

datatype payload = PNullish | PValue field_value

definition payloadMeals :: "payload \<Rightarrow> field_value" where
  "payloadMeals p = (case p of PNullish \<Rightarrow> FUndefined | PValue f \<Rightarrow> f)"

text \<open>\<open>response.json()\<close> rejects or resolves.\<close>

datatype json_result = JsonRejects thrown | JsonResolves payload

record response =
  ok :: bool
  status :: nat
  json :: json_result

text \<open>The injected transport: \<open>fetch\<close> rejects or resolves with a response.\<close>

datatype fetch_result = FetchRejects thrown | FetchResolves response

text \<open>
  The \<open>try\<close> block of \<open>loadRecipes\<close> from the point where \<open>fetch\<close> settles: \<open>Inr rs\<close> when it
  reaches \<open>setRecipes(rs)\<close>, \<open>Inl e\<close> when \<open>e\<close> is thrown (and no \<open>setRecipes\<close> has run).
\<close>

definition loadRecipesTry :: "fetch_result \<Rightarrow> thrown + Recipe list" where
  "loadRecipesTry fr =
     (case fr of
        FetchRejects e \<Rightarrow> Inl e
      | FetchResolves response \<Rightarrow>
          if \<not> ok response then
            Inl (ErrorObj (js ''Unable to reach recipe service (status '' @
                           toDecimal (response.status response) @ js '')''))
          else
            (case json response of
               JsonRejects e \<Rightarrow> Inl e
             | JsonResolves payload \<Rightarrow>
                 (case payloadMeals payload of
                    FNull \<Rightarrow> Inr []
                  | FArray meals \<Rightarrow> Inr (map mapMealToRecipe meals)
                  | FUndefined \<Rightarrow> Inl (ErrorObj (js ''Recipe data malformed: missing meals array.''))
                  | FOther \<Rightarrow> Inl (ErrorObj (js ''Recipe data malformed: missing meals array.'')))))"

text \<open>The \<open>catch\<close> block's message.\<close>

definition catchMessage :: "thrown \<Rightarrow> jsstring" where
  "catchMessage e =
     (case e of ErrorObj m \<Rightarrow> m | NonError \<Rightarrow> js ''Unexpected error while fetching recipes.'')"

section \<open>The App component\<close>

datatype Status = Idle | Loading | Error

text \<open>
  The component's state and refs, followed by what the platform holds for it: the clock, the
  pending timers (handle, due time, and the \<open>query\<close> captured by the callback), the next timer
  handle, the transport calls not yet settled (term, and whether \<open>onRefresh\<close> issued it), and
  the trace of the terms passed to \<open>fetchAndTrack\<close>.
\<close>

record App =
  recipes :: "Recipe list"
  status :: Status
  errorMessage :: "jsstring option"
  query :: jsstring
  selectedRecipe :: "Recipe option"
  refreshing :: bool
  initialLoadRef :: bool
  searchTimeoutRef :: "nat option"
  hasCleanup :: bool
  clock :: nat
  timers :: "(nat \<times> nat \<times> jsstring) list"
  nextHandle :: nat
  inFlight :: "(jsstring \<times> bool) list"
  issued :: "jsstring list"

text \<open>The \<open>useState\<close> and \<open>useRef\<close> initial values; timer handles are positive.\<close>

definition initialApp :: App where
  "initialApp =
     \<lparr> recipes = [], status = Idle, errorMessage = None, query = [], selectedRecipe = None,
       refreshing = False, initialLoadRef = True, searchTimeoutRef = None,
       hasCleanup = False, clock = 0, timers = [], nextHandle = 1, inFlight = [], issued = [] \<rparr>"

text \<open>
  \<open>fetchAndTrack(term)\<close> up to the \<open>await fetch\<close>: \<open>setStatus("loading")\<close>, then inside
  \<open>loadRecipes\<close> \<open>setErrorMessage(null)\<close> and the transport call.
\<close>

definition fetchAndTrackStart :: "jsstring \<Rightarrow> bool \<Rightarrow> App \<Rightarrow> App" where
  "fetchAndTrackStart term fromRefresh s =
     s\<lparr> status := Loading, errorMessage := None,
        inFlight := inFlight s @ [(term, fromRefresh)], issued := issued s @ [term] \<rparr>"

text \<open>\<open>fetchAndTrack\<close> from the point where the transport call settles with \<open>fr\<close>.\<close>

definition fetchAndTrackSettle :: "fetch_result \<Rightarrow> App \<Rightarrow> App" where
  "fetchAndTrackSettle fr s =
     (case loadRecipesTry fr of
        Inr rs \<Rightarrow> s\<lparr> recipes := rs, status := Idle \<rparr>
      | Inl e \<Rightarrow> s\<lparr> errorMessage := Some (catchMessage e), status := Error \<rparr>)"

definition clearTimeout :: "nat \<Rightarrow> App \<Rightarrow> App" where
  "clearTimeout h s = s\<lparr> timers := filter (\<lambda>(h', due, q). h' \<noteq> h) (timers s) \<rparr>"

text \<open>\<open>if (searchTimeoutRef.current) clearTimeout(searchTimeoutRef.current)\<close>; the handle 0 is falsy.\<close>

definition clearPending :: "App \<Rightarrow> App" where
  "clearPending s =
     (case searchTimeoutRef s of
        None \<Rightarrow> s
      | Some h \<Rightarrow> if h \<noteq> 0 then clearTimeout h s else s)"

text \<open>
  The debounce effect's body. Its callback closes over the \<open>query\<close> of the render that ran
  the effect. \<open>hasCleanup\<close> records whether this run returned a cleanup function.
\<close>

definition debounceEffect :: "App \<Rightarrow> App" where
  "debounceEffect s =
     (if initialLoadRef s then s\<lparr> initialLoadRef := False, hasCleanup := False \<rparr>
      else
        let s1 = clearPending s
        in s1\<lparr> searchTimeoutRef := Some (nextHandle s1),
               timers := timers s1 @ [(nextHandle s1, clock s1 + 450, query s1)],
               nextHandle := nextHandle s1 + 1,
               hasCleanup := True \<rparr>)"

text \<open>The first render's effects, in declaration order.\<close>

definition mount :: "App \<Rightarrow> App" where
  "mount s = debounceEffect (fetchAndTrackStart [] False s)"

text \<open>
  \<open>setQuery(t)\<close>: a value equal to the current one causes no render; otherwise the previous
  run's cleanup (if it returned one) runs, then the effect. The render and its effect are
  one step of the model.
\<close>

definition setQuery :: "jsstring \<Rightarrow> App \<Rightarrow> App" where
  "setQuery t s =
     (if t = query s then s
      else
        let s1 = s\<lparr> query := t \<rparr>;
            s2 = (if hasCleanup s1 then clearPending s1 else s1)
        in debounceEffect s2)"

text \<open>One time unit passes; the timers now due fire in order, each running its callback.\<close>

definition tick :: "App \<Rightarrow> App" where
  "tick s =
     (let now = clock s + 1;
          due = filter (\<lambda>(h, d, q). d \<le> now) (timers s);
          s1 = s\<lparr> clock := now, timers := filter (\<lambda>(h, d, q). \<not> d \<le> now) (timers s) \<rparr>
      in fold (\<lambda>(h, d, q). fetchAndTrackStart (trim q) False) due s1)"

definition onRefresh :: "App \<Rightarrow> App" where
  "onRefresh s = fetchAndTrackStart (trim (query s)) True (s\<lparr> refreshing := True \<rparr>)"

text \<open>The retry button is rendered only when \<open>status === "error" && errorMessage\<close>.\<close>

definition retry :: "App \<Rightarrow> App" where
  "retry s =
     (if status s = Error \<and> (case errorMessage s of None \<Rightarrow> False | Some m \<Rightarrow> truthy m)
      then fetchAndTrackStart (trim (query s)) False s
      else s)"

text \<open>The \<open>i\<close>-th unsettled transport call settles with \<open>fr\<close>.\<close>

definition resolve :: "nat \<Rightarrow> fetch_result \<Rightarrow> App \<Rightarrow> App" where
  "resolve i fr s =
     (if i < length (inFlight s) then
        let fromRefresh = snd (inFlight s ! i);
            s1 = fetchAndTrackSettle fr (s\<lparr> inFlight := take i (inFlight s) @ drop (Suc i) (inFlight s) \<rparr>)
        in (if fromRefresh then s1\<lparr> refreshing := False \<rparr> else s1)
      else s)"

datatype event =
    ChangeText jsstring
  | Tick
  | Refresh
  | Retry
  | Resolve nat fetch_result
  | Select "Recipe option"

fun step :: "event \<Rightarrow> App \<Rightarrow> App" where
  "step (ChangeText t) s = setQuery t s"
| "step Tick s = tick s"
| "step Refresh s = onRefresh s"
| "step Retry s = retry s"
| "step (Resolve i fr) s = resolve i fr s"
| "step (Select r) s = s\<lparr> selectedRecipe := r \<rparr>"

fun run :: "event list \<Rightarrow> App \<Rightarrow> App" where
  "run [] s = s"
| "run (e # es) s = run es (step e s)"

text \<open>A burst of text changes: each change is followed by its number of quiet time units.\<close>

fun burst :: "(jsstring \<times> nat) list \<Rightarrow> event list" where
  "burst [] = []"
| "burst ((t, gap) # rest) = ChangeText t # replicate gap Tick @ burst rest"

section \<open>Notions used to state and prove the properties\<close>

text \<open>Splitting on maximal runs of break characters; \<open>acc\<close> is the piece being read, reversed.\<close>

function splitRuns :: "(nat \<Rightarrow> bool) \<Rightarrow> jsstring \<Rightarrow> jsstring \<Rightarrow> jsstring list" where
  "splitRuns brk acc [] = [rev acc]"
| "splitRuns brk acc (c # cs) =
     (if brk c then rev acc # splitRuns brk [] (dropWhile brk cs)
      else splitRuns brk (c # acc) cs)"
  by pat_completeness auto
termination
proof (relation "measure (\<lambda>(brk, acc, s). length s)")
  show "wf (measure (\<lambda>(brk, acc, s). length s))" by simp
next
  fix brk :: "nat \<Rightarrow> bool" and acc :: jsstring and c cs
  have "length (dropWhile brk cs) \<le> length cs" by (rule length_dropWhile_le)
  then show "((brk, [], dropWhile brk cs), (brk, acc, c # cs)) \<in> measure (\<lambda>(brk, acc, s). length s)"
    by simp
next
  fix brk :: "nat \<Rightarrow> bool" and acc :: jsstring and c cs
  show "((brk, c # acc, cs), (brk, acc, c # cs)) \<in> measure (\<lambda>(brk, acc, s). length s)" by simp
qed

definition isLineFeed :: "nat \<Rightarrow> bool" where
  "isLineFeed c \<longleftrightarrow> c = 10"

text \<open>The line-break characters: line feed and carriage return.\<close>

definition isLineBreak :: "nat \<Rightarrow> bool" where
  "isLineBreak c \<longleftrightarrow> c = 10 \<or> c = 13"

text \<open>
  The specification's description of the segmenter: split on runs of one or more line-break
  characters, strip the leading marker of each piece, trim, drop the pieces that became
  empty, keep the order.
\<close>

definition segmentSpec :: "jsstring \<Rightarrow> jsstring list" where
  "segmentSpec text =
     filter (\<lambda>piece. piece \<noteq> []) (map (\<lambda>piece. trim (stripMarker piece)) (splitRuns isLineBreak [] text))"

text \<open>The same description with runs of line feeds only as separators.\<close>

definition segmentOnLineFeeds :: "jsstring \<Rightarrow> jsstring list" where
  "segmentOnLineFeeds text =
     filter (\<lambda>piece. piece \<noteq> []) (map (\<lambda>piece. trim (stripMarker piece)) (splitRuns isLineFeed [] text))"

text \<open>Every carriage return of the text is directly followed by a line feed.\<close>

fun noLoneCR :: "jsstring \<Rightarrow> bool" where
  "noLoneCR [] = True"
| "noLoneCR (c # cs) =
     ((if c = 13 then (case cs of [] \<Rightarrow> False | d # ds \<Rightarrow> d = 10) else True) \<and> noLoneCR cs)"

text \<open>A piece begins with one or more digits followed by \<open>)\<close> or \<open>.\<close>.\<close>

definition beginsWithMarker :: "jsstring \<Rightarrow> bool" where
  "beginsWithMarker piece =
     (case dropWhile is_digit piece of
        [] \<Rightarrow> False
      | c # after \<Rightarrow> takeWhile is_digit piece \<noteq> [] \<and> (c = 41 \<or> c = 46))"

text \<open>A non-empty line without line feed and without whitespace at either end.\<close>

definition trimmedLine :: "jsstring \<Rightarrow> bool" where
  "trimmedLine s \<longleftrightarrow> s \<noteq> [] \<and> 10 \<notin> set s \<and> \<not> is_space (hd s) \<and> \<not> is_space (last s)"

text \<open>The number a string of decimal digits denotes.\<close>

definition decimalValue :: "jsstring \<Rightarrow> nat" where
  "decimalValue ds = foldl (\<lambda>a c. 10 * a + (c - 48)) 0 ds"

text \<open>Events that are not an action of the user: time passing, a transport call settling, a selection.\<close>

fun noUserAction :: "event \<Rightarrow> bool" where
  "noUserAction (ChangeText t) = False"
| "noUserAction Tick = True"
| "noUserAction Refresh = False"
| "noUserAction Retry = False"
| "noUserAction (Resolve i fr) = True"
| "noUserAction (Select r) = True"

text \<open>Events other than the settling of a transport call.\<close>

fun noSettle :: "event \<Rightarrow> bool" where
  "noSettle (ChangeText t) = True"
| "noSettle Tick = True"
| "noSettle Refresh = True"
| "noSettle Retry = True"
| "noSettle (Resolve i fr) = False"
| "noSettle (Select r) = True"

text \<open>The pending timer is due at the next time unit.\<close>

definition timerDue :: "App \<Rightarrow> bool" where
  "timerDue s = (case timers s of [] \<Rightarrow> False | (h, due, q) # later \<Rightarrow> due \<le> clock s + 1)"

text \<open>The retry button is on screen: \<open>status === "error" && errorMessage\<close>.\<close>

definition retryShown :: "App \<Rightarrow> bool" where
  "retryShown s \<longleftrightarrow>
     status s = Error \<and> (case errorMessage s of None \<Rightarrow> False | Some m \<Rightarrow> m \<noteq> [])"

text \<open>
  The state of the debounce timer after mounting: at most one timer is pending, it is the one
  \<open>searchTimeoutRef\<close> holds, it captured the current \<open>query\<close>, and it is due within 450 units.
\<close>

definition debounceInv :: "App \<Rightarrow> bool" where
  "debounceInv s \<longleftrightarrow>
     \<not> initialLoadRef s \<and> 0 < nextHandle s \<and> length (timers s) \<le> 1 \<and>
     (\<forall>(h, due, q)\<in>set (timers s).
        searchTimeoutRef s = Some h \<and> h \<noteq> 0 \<and> q = query s \<and> clock s < due \<and> due \<le> clock s + 450)"

text \<open>
  A burst whose changes fall within the debounce window of one another: each change alters the
  text (\<open>q\<close> is the text before it), fewer than 450 units pass before the next change, and at
  least 450 pass after the last.
\<close>

fun withinWindow :: "jsstring \<Rightarrow> (jsstring \<times> nat) list \<Rightarrow> bool" where
  "withinWindow q [] = False"
| "withinWindow q [(t, gap)] = (t \<noteq> q \<and> 450 \<le> gap)"
| "withinWindow q ((t, gap) # later) = (t \<noteq> q \<and> gap < 450 \<and> withinWindow t later)"

section \<open>Concrete inputs\<close>

definition blankMeal :: MealFromApi where
  "blankMeal =
     \<lparr> idMeal = js ''52772'', strMeal = js ''Example'', strCategory = None, strArea = None,
       strInstructions = None, strMealThumb = None, strTags = None, strSource = None,
       indexed = Map.empty \<rparr>"

definition okResponse :: "payload \<Rightarrow> response" where
  "okResponse p = \<lparr> ok = True, status = 200, json = JsonResolves p \<rparr>"

section \<open>Facts about trim\<close>

lemma trim_Nil_iff: "trim s = [] \<longleftrightarrow> (\<forall>c\<in>set s. is_space c)"
proof
  assume "trim s = []"
  then have "\<forall>c\<in>set (dropWhile is_space s). is_space c"
    by (simp add: trim_def dropWhile_eq_Nil_conv)
  then have "dropWhile is_space s = []"
    by (cases "dropWhile is_space s") (use hd_dropWhile [of is_space s] in auto)
  then show "\<forall>c\<in>set s. is_space c"
    by (simp add: dropWhile_eq_Nil_conv)
next
  assume "\<forall>c\<in>set s. is_space c"
  then have "\<forall>x\<in>set (dropWhile is_space s). is_space x"
    using set_dropWhileD [of _ is_space s] by blast
  then show "trim s = []"
    by (simp add: trim_def)
qed

lemma set_trim: "set (trim s) \<subseteq> set s"
proof -
  have "set (trim s) \<subseteq> set (dropWhile is_space s)"
    unfolding trim_def using set_dropWhileD [of _ is_space "rev (dropWhile is_space s)"] by auto
  also have "\<dots> \<subseteq> set s"
    using set_dropWhileD [of _ is_space s] by auto
  finally show ?thesis .
qed

lemma trim_ends:
  assumes "trim s \<noteq> []"
  shows "\<not> is_space (hd (trim s))" and "\<not> is_space (last (trim s))"
proof -
  define d where "d = dropWhile is_space s"
  define e where "e = dropWhile is_space (rev d)"
  have t: "trim s = rev e" by (simp add: trim_def d_def e_def)
  with assms have e: "e \<noteq> []" by simp
  then have d: "d \<noteq> []" by (auto simp: e_def)
  have "\<not> is_space (hd e)" unfolding e_def using e hd_dropWhile [of is_space "rev d"] by (simp add: e_def)
  with e t show "\<not> is_space (last (trim s))" by (simp add: last_rev)
  have "rev d = takeWhile is_space (rev d) @ e" by (simp add: e_def)
  then have "last (rev d) = last e" using e by (metis last_appendR)
  then have "last e = hd d" using d by (simp add: last_rev)
  moreover have "\<not> is_space (hd d)" unfolding d_def using d hd_dropWhile [of is_space s] by (simp add: d_def)
  ultimately show "\<not> is_space (hd (trim s))" using e t by (simp add: hd_rev)
qed

lemma trim_id:
  assumes "s \<noteq> []" "\<not> is_space (hd s)" "\<not> is_space (last s)"
  shows "trim s = s"
proof -
  from assms have 1: "dropWhile is_space s = s" by (cases s) auto
  from assms have "rev s \<noteq> []" "\<not> is_space (hd (rev s))" by (simp_all add: hd_rev)
  then have "dropWhile is_space (rev s) = rev s" by (cases "rev s") auto
  with 1 show ?thesis by (simp add: trim_def)
qed


section \<open>Facts about the ingredient list\<close>










section \<open>C1: the measure prefix\<close>



section \<open>C2: order and non-blank entries\<close>



section \<open>Facts about the segmenter\<close>

lemma trim_snoc_space:
  assumes "is_space c"
  shows "trim (xs @ [c]) = trim xs"
proof (cases "\<forall>x\<in>set xs. is_space x")
  case True
  with assms have "\<forall>x\<in>set (xs @ [c]). is_space x" by simp
  with True show ?thesis by (simp only: trim_Nil_iff [symmetric])
next
  case False
  then have "dropWhile is_space (xs @ [c]) = dropWhile is_space xs @ [c]"
    by (auto simp: dropWhile_append1)
  with assms show ?thesis by (simp add: trim_def)
qed

lemma stripMarker_snoc_CR: "trim (stripMarker (p @ [13])) = trim (stripMarker p)"
proof -
  have sp: "is_space 13" by (simp add: is_space_def)
  have nd: "\<not> is_digit 13" by (simp add: is_digit_def)
  show ?thesis
  proof (cases "dropWhile is_digit p")
    case Nil
    then have all: "\<forall>x\<in>set p. is_digit x" by (simp add: dropWhile_eq_Nil_conv)
    then have d: "dropWhile is_digit (p @ [13]) = [13]" using nd by (simp add: dropWhile_append2)
    have s1: "stripMarker p = p" unfolding stripMarker_def Nil by simp
    have s2: "stripMarker (p @ [13]) = p @ [13]" unfolding stripMarker_def d by simp
    show ?thesis unfolding s1 s2 by (rule trim_snoc_space [OF sp])
  next
    case (Cons c after)
    then have ex: "\<exists>x\<in>set p. \<not> is_digit x"
      by (metis dropWhile_eq_Nil_conv list.distinct(1))
    then have d: "dropWhile is_digit (p @ [13]) = c # (after @ [13])"
      using Cons by (auto simp: dropWhile_append1)
    from ex have t: "takeWhile is_digit (p @ [13]) = takeWhile is_digit p"
      by (auto simp: takeWhile_append1)
    show ?thesis
    proof (cases "takeWhile is_digit p \<noteq> [] \<and> (c = 41 \<or> c = 46)")
      case True
      have "trim (dropWhile is_space (after @ [13])) = trim (dropWhile is_space after)"
      proof (cases "\<forall>x\<in>set after. is_space x")
        case True
        with sp have a: "dropWhile is_space (after @ [13]) = []" by simp
        from True have b: "dropWhile is_space after = []" by simp
        show ?thesis unfolding a b ..
      next
        case False
        then have "dropWhile is_space (after @ [13]) = dropWhile is_space after @ [13]"
          by (auto simp: dropWhile_append1)
        then show ?thesis by (simp add: trim_snoc_space [OF sp])
      qed
      with True Cons d t show ?thesis by (simp add: stripMarker_def)
    next
      case False
      with Cons d t show ?thesis by (auto simp: stripMarker_def trim_snoc_space [OF sp])
    qed
  qed
qed

lemma split_agree:
  "filter (\<lambda>piece. piece \<noteq> []) (map (\<lambda>piece. trim (stripMarker piece)) (splitLines acc s)) =
   filter (\<lambda>piece. piece \<noteq> []) (map (\<lambda>piece. trim (stripMarker piece)) (splitRuns isLineFeed acc s))"
proof (induction acc s rule: splitLines.induct)
  case (1 acc)
  show ?case by simp
next
  case (2 acc c cs)
  have lf: "(\<lambda>x. x = 10) = isLineFeed" by (auto simp: isLineFeed_def)
  show ?case
  proof (cases "c = 10")
    case True
    then have a: "afterSeparator (c # cs) = Some (dropWhile isLineFeed cs)" by (simp add: lf)
    then have l: "splitLines acc (c # cs) = rev acc # splitLines [] (dropWhile isLineFeed cs)"
      by (simp del: afterSeparator.simps)
    have r: "splitRuns isLineFeed acc (c # cs) = rev acc # splitRuns isLineFeed [] (dropWhile isLineFeed cs)"
      using True by (simp add: isLineFeed_def)
    from 2(2) [OF a] show ?thesis unfolding l r by simp
  next
    case False
    show ?thesis
    proof (cases "afterSeparator (c # cs)")
      case None
      then have l: "splitLines acc (c # cs) = splitLines (c # acc) cs"
        by (simp del: afterSeparator.simps)
      have r: "splitRuns isLineFeed acc (c # cs) = splitRuns isLineFeed (c # acc) cs"
        using False by (simp add: isLineFeed_def)
      from 2(1) [OF None] show ?thesis unfolding l r .
    next
      case (Some rest)
      with False obtain ds where c: "c = 13" and cs: "cs = 10 # ds" and rest: "rest = dropWhile isLineFeed ds"
        by (auto simp: lf split: if_splits list.splits)
      from Some have l: "splitLines acc (c # cs) = rev acc # splitLines [] rest"
        by (simp del: afterSeparator.simps)
      have r: "splitRuns isLineFeed acc (c # cs) = (rev acc @ [13]) # splitRuns isLineFeed [] rest"
        using c cs rest by (simp add: isLineFeed_def)
      from 2(2) [OF Some] show ?thesis unfolding l r by (simp add: stripMarker_snoc_CR)
    qed
  qed
qed

lemma segmentInstructions_lineFeeds: "segmentInstructions (Some text) = segmentOnLineFeeds text"
proof (cases "text = []")
  case True
  then show ?thesis
    by (simp add: segmentInstructions_def segmentOnLineFeeds_def truthy_def stripMarker_def trim_def)
next
  case False
  have tr: "truthy = (\<lambda>piece. piece \<noteq> [])" by (auto simp: truthy_def)
  show ?thesis
    unfolding segmentInstructions_def segmentOnLineFeeds_def tr using False by (simp add: split_agree)
qed

lemma not_digit_marker: "\<not> is_digit 41" "\<not> is_digit 46"
  by (simp_all add: is_digit_def)

lemma stripMarker_marker:
  assumes "ds \<noteq> []" "list_all is_digit ds" "p = 41 \<or> p = 46"
  shows "stripMarker (ds @ p # rest) = dropWhile is_space rest"
proof -
  from assms(3) not_digit_marker have np: "\<not> is_digit p" by auto
  from assms(2) have all: "\<And>x. x \<in> set ds \<Longrightarrow> is_digit x" by (simp add: list_all_iff)
  from all np have d: "dropWhile is_digit (ds @ p # rest) = p # rest"
    by (simp add: dropWhile_append2)
  from all np have t: "takeWhile is_digit (ds @ p # rest) = ds"
    by (simp add: takeWhile_append2)
  show ?thesis unfolding stripMarker_def d t using assms(1,3) by simp
qed

lemma stripMarker_no_marker:
  assumes "\<not> beginsWithMarker piece"
  shows "stripMarker piece = piece"
proof (cases "dropWhile is_digit piece")
  case Nil
  show ?thesis unfolding stripMarker_def Nil by simp
next
  case (Cons c after)
  from assms show ?thesis unfolding beginsWithMarker_def stripMarker_def Cons by auto
qed

lemma beginsWithMarker_iff:
  "beginsWithMarker piece \<longleftrightarrow>
     (\<exists>ds p rest. piece = ds @ p # rest \<and> ds \<noteq> [] \<and> list_all is_digit ds \<and> (p = 41 \<or> p = 46))"
proof
  assume b: "beginsWithMarker piece"
  then obtain c after where d: "dropWhile is_digit piece = c # after"
    and t: "takeWhile is_digit piece \<noteq> []" and c: "c = 41 \<or> c = 46"
    by (auto simp: beginsWithMarker_def split: list.splits)
  have "piece = takeWhile is_digit piece @ dropWhile is_digit piece" by simp
  with d have "piece = takeWhile is_digit piece @ c # after" by simp
  moreover have "list_all is_digit (takeWhile is_digit piece)"
    by (auto simp: list_all_iff dest: set_takeWhileD)
  ultimately show "\<exists>ds p rest. piece = ds @ p # rest \<and> ds \<noteq> [] \<and> list_all is_digit ds \<and> (p = 41 \<or> p = 46)"
    using t c by blast
next
  assume "\<exists>ds p rest. piece = ds @ p # rest \<and> ds \<noteq> [] \<and> list_all is_digit ds \<and> (p = 41 \<or> p = 46)"
  then obtain ds p rest where piece: "piece = ds @ p # rest" and ds: "ds \<noteq> []" "list_all is_digit ds"
    and p: "p = 41 \<or> p = 46" by blast
  from p not_digit_marker have np: "\<not> is_digit p" by auto
  from ds(2) have all: "\<And>x. x \<in> set ds \<Longrightarrow> is_digit x" by (simp add: list_all_iff)
  from all np have d: "dropWhile is_digit (ds @ p # rest) = p # rest"
    by (simp add: dropWhile_append2)
  from all np have t: "takeWhile is_digit (ds @ p # rest) = ds"
    by (simp add: takeWhile_append2)
  show "beginsWithMarker piece" unfolding beginsWithMarker_def piece d t using ds(1) p by simp
qed

lemmas segment_eval =
  segmentInstructions_def truthy_def stripMarker_def trim_def is_space_def is_digit_def js_def

lemma afterSeparator_None:
  assumes "c \<noteq> 10" "c = 13 \<longrightarrow> (cs = [] \<or> hd cs \<noteq> 10)"
  shows "afterSeparator (c # cs) = None"
  using assms by (cases cs) auto

lemma splitLines_last_piece: "10 \<notin> set s \<Longrightarrow> splitLines acc s = [rev acc @ s]"
proof (induction s arbitrary: acc)
  case Nil
  show ?case by simp
next
  case (Cons c cs)
  then have "afterSeparator (c # cs) = None"
    by (intro afterSeparator_None) (cases cs; auto)+
  with Cons show ?case by (simp del: afterSeparator.simps)
qed

lemma splitLines_piece:
  "10 \<notin> set s \<Longrightarrow> (s \<noteq> [] \<longrightarrow> last s \<noteq> 13) \<Longrightarrow> (rest \<noteq> [] \<longrightarrow> hd rest \<noteq> 10) \<Longrightarrow>
     splitLines acc (s @ 10 # rest) = (rev acc @ s) # splitLines [] rest"
proof (induction s arbitrary: acc)
  case Nil
  then have "dropWhile (\<lambda>x. x = 10) rest = rest" by (cases rest) auto
  then show ?case by simp
next
  case (Cons c cs)
  from Cons.prems have c: "c \<noteq> 10" by simp
  from Cons.prems have "c = 13 \<longrightarrow> (cs @ 10 # rest = [] \<or> hd (cs @ 10 # rest) \<noteq> 10)"
    by (cases cs) auto
  with c have n: "afterSeparator (c # cs @ 10 # rest) = None" by (rule afterSeparator_None)
  from Cons.prems have "10 \<notin> set cs" "cs \<noteq> [] \<longrightarrow> last cs \<noteq> 13" by auto
  from Cons.IH [OF this Cons.prems(3), of "c # acc"] n show ?case
    by (simp del: afterSeparator.simps)
qed

lemma joinLines_hd: "x \<noteq> [] \<Longrightarrow> joinLines (x # xs) \<noteq> [] \<and> hd (joinLines (x # xs)) = hd x"
  by (cases xs) auto

lemma splitLines_joinLines:
  "ss \<noteq> [] \<Longrightarrow> \<forall>s\<in>set ss. trimmedLine s \<Longrightarrow> splitLines [] (joinLines ss) = ss"
proof (induction ss rule: joinLines.induct)
  case 1
  then show ?case by simp
next
  case (2 x)
  then show ?case by (simp add: trimmedLine_def splitLines_last_piece)
next
  case (3 x y ys)
  have cr: "is_space 13" and lf: "is_space 10" by (simp_all add: is_space_def)
  from 3(3) have x: "10 \<notin> set x" "x \<noteq> [] \<longrightarrow> last x \<noteq> 13"
    using cr by (auto simp: trimmedLine_def)
  from 3(3) have y: "y \<noteq> []" "hd y \<noteq> 10" using lf by (auto simp: trimmedLine_def)
  from joinLines_hd [OF y(1), of ys] y(2)
  have r: "joinLines (y # ys) \<noteq> [] \<longrightarrow> hd (joinLines (y # ys)) \<noteq> 10" by simp
  from 3(3) have "\<forall>s\<in>set (y # ys). trimmedLine s" by simp
  with 3(1) have "splitLines [] (joinLines (y # ys)) = y # ys" by simp
  with splitLines_piece [OF x r, of "[]"] show ?case by simp
qed

lemma splitLines_no_LF:
  "10 \<notin> set acc \<Longrightarrow> \<forall>piece\<in>set (splitLines acc s). 10 \<notin> set piece"
proof (induction acc s rule: splitLines.induct)
  case (1 acc)
  then show ?case by simp
next
  case (2 acc c cs)
  show ?case
  proof (cases "afterSeparator (c # cs)")
    case None
    then have "c \<noteq> 10" by (auto split: if_splits)
    with 2(1) [OF None] 2(3) None show ?thesis by (simp del: afterSeparator.simps)
  next
    case (Some rest)
    with 2(2) [OF Some] 2(3) show ?thesis by (simp del: afterSeparator.simps)
  qed
qed

lemma set_stripMarker: "set (stripMarker piece) \<subseteq> set piece"
proof (cases "dropWhile is_digit piece")
  case Nil
  show ?thesis unfolding stripMarker_def Nil by simp
next
  case (Cons c after)
  have "set (dropWhile is_space after) \<subseteq> set after" by (auto dest: set_dropWhileD)
  also have "\<dots> \<subseteq> set (dropWhile is_digit piece)" by (auto simp: Cons)
  also have "\<dots> \<subseteq> set piece" by (auto dest: set_dropWhileD)
  finally show ?thesis unfolding stripMarker_def Cons by auto
qed

lemma segment_steps_trimmed: "\<forall>s\<in>set (segmentInstructions ins). trimmedLine s"
proof (cases ins)
  case None
  then show ?thesis by (simp add: segmentInstructions_def)
next
  case (Some t)
  show ?thesis
  proof
    fix s assume "s \<in> set (segmentInstructions ins)"
    with Some obtain piece where p: "piece \<in> set (splitLines [] t)"
      and s: "s = trim (stripMarker piece)" and ne: "s \<noteq> []"
      by (auto simp: segmentInstructions_def truthy_def split: if_splits)
    from p splitLines_no_LF [of "[]" t] have "10 \<notin> set piece" by simp
    with set_stripMarker [of piece] set_trim [of "stripMarker piece"] s have "10 \<notin> set s" by auto
    with ne s trim_ends [of "stripMarker piece"] show "trimmedLine s"
      by (simp add: trimmedLine_def)
  qed
qed

lemma resegment:
  "segmentInstructions (Some (joinLines (segmentInstructions ins))) =
     filter (\<lambda>s. s \<noteq> []) (map (\<lambda>s. trim (stripMarker s)) (segmentInstructions ins))"
proof (cases "segmentInstructions ins = []")
  case True
  then show ?thesis by (simp add: segmentInstructions_def truthy_def)
next
  case False
  have tr: "truthy = (\<lambda>piece. piece \<noteq> [])" by (auto simp: truthy_def)
  from False obtain x xs where c: "segmentInstructions ins = x # xs"
    by (cases "segmentInstructions ins") auto
  with segment_steps_trimmed [of ins] have "x \<noteq> []" by (simp add: trimmedLine_def)
  from joinLines_hd [OF this, of xs] c have ne: "joinLines (segmentInstructions ins) \<noteq> []" by simp
  from splitLines_joinLines [OF False segment_steps_trimmed]
  have sp: "splitLines [] (joinLines (segmentInstructions ins)) = segmentInstructions ins" .
  show ?thesis
    unfolding segmentInstructions_def [of "Some (joinLines (segmentInstructions ins))"] tr
    using ne sp by simp
qed

lemma filter_map_id:
  "\<forall>x\<in>set xs. f x = x \<and> P x \<Longrightarrow> filter P (map f xs) = xs"
  by (induction xs) auto

lemma noLoneCR_dropWhile: "noLoneCR t \<Longrightarrow> noLoneCR (dropWhile P t)"
  by (induction t) auto

lemma dropWhile_break_after_feed: "dropWhile isLineBreak (dropWhile isLineFeed t) = dropWhile isLineBreak t"
  by (induction t) (auto simp: isLineBreak_def isLineFeed_def)

lemma empty_piece_dropped:
  "filter (\<lambda>piece. piece \<noteq> []) (map (\<lambda>piece. trim (stripMarker piece)) ([] # ps)) =
   filter (\<lambda>piece. piece \<noteq> []) (map (\<lambda>piece. trim (stripMarker piece)) ps)"
  by (simp add: stripMarker_def trim_def)

lemma skip_breaks:
  "noLoneCR t \<Longrightarrow>
   filter (\<lambda>piece. piece \<noteq> []) (map (\<lambda>piece. trim (stripMarker piece)) (splitLines [] t)) =
   filter (\<lambda>piece. piece \<noteq> []) (map (\<lambda>piece. trim (stripMarker piece)) (splitLines [] (dropWhile isLineBreak t)))"
proof (induction t rule: length_induct)
  case (1 t)
  have lf: "(\<lambda>x. x = 10) = isLineFeed" by (auto simp: isLineFeed_def)
  show ?case
  proof (cases t)
    case Nil
    then show ?thesis by simp
  next
    case (Cons c cs)
    show ?thesis
    proof (cases "c = 10")
      case True
      let ?u = "dropWhile isLineFeed cs"
      have len: "length ?u < length t" using Cons length_dropWhile_le [of isLineFeed cs] by simp
      from 1(2) Cons have "noLoneCR cs" by simp
      then have nu: "noLoneCR ?u" by (rule noLoneCR_dropWhile)
      from True Cons have l: "splitLines [] t = [] # splitLines [] ?u" by (simp add: lf)
      from True Cons have d: "dropWhile isLineBreak t = dropWhile isLineBreak ?u"
        by (simp add: isLineBreak_def dropWhile_break_after_feed)
      from 1(1) len nu show ?thesis unfolding l d empty_piece_dropped by blast
    next
      case False
      show ?thesis
      proof (cases "c = 13")
        case True
        with 1(2) Cons obtain ds where cs: "cs = 10 # ds" by (cases cs) auto
        let ?u = "dropWhile isLineFeed ds"
        have len: "length ?u < length t" using Cons cs length_dropWhile_le [of isLineFeed ds] by simp
        from 1(2) Cons cs have "noLoneCR ds" by simp
        then have nu: "noLoneCR ?u" by (rule noLoneCR_dropWhile)
        from True Cons cs have l: "splitLines [] t = [] # splitLines [] ?u" by (simp add: lf)
        from True Cons cs have d: "dropWhile isLineBreak t = dropWhile isLineBreak ?u"
          by (simp add: isLineBreak_def dropWhile_break_after_feed)
        from 1(1) len nu show ?thesis unfolding l d empty_piece_dropped by blast
      next
        case c13: False
        with False Cons have "dropWhile isLineBreak t = t" by (simp add: isLineBreak_def)
        then show ?thesis by simp
      qed
    qed
  qed
qed

lemma split_agree_breaks:
  "noLoneCR s \<Longrightarrow>
   filter (\<lambda>piece. piece \<noteq> []) (map (\<lambda>piece. trim (stripMarker piece)) (splitLines acc s)) =
   filter (\<lambda>piece. piece \<noteq> []) (map (\<lambda>piece. trim (stripMarker piece)) (splitRuns isLineBreak acc s))"
proof (induction isLineBreak acc s rule: splitRuns.induct)
  case (1 acc)
  show ?case by simp
next
  case (2 acc c cs)
  have lf: "(\<lambda>x. x = 10) = isLineFeed" by (auto simp: isLineFeed_def)
  from 2(3) have ncs: "noLoneCR cs" by simp
  show ?case
  proof (cases "isLineBreak c")
    case True
    have r: "splitRuns isLineBreak acc (c # cs) = rev acc # splitRuns isLineBreak [] (dropWhile isLineBreak cs)"
      using True by simp
    have ih: "filter (\<lambda>piece. piece \<noteq> []) (map (\<lambda>piece. trim (stripMarker piece)) (splitLines [] (dropWhile isLineBreak cs))) =
      filter (\<lambda>piece. piece \<noteq> []) (map (\<lambda>piece. trim (stripMarker piece)) (splitRuns isLineBreak [] (dropWhile isLineBreak cs)))"
      using 2(1) [OF True] ncs by (simp add: noLoneCR_dropWhile)
    obtain u where l: "splitLines acc (c # cs) = rev acc # splitLines [] u"
      and nu: "noLoneCR u" and d: "dropWhile isLineBreak u = dropWhile isLineBreak cs"
    proof (cases "c = 10")
      case c10: True
      have "splitLines acc (c # cs) = rev acc # splitLines [] (dropWhile isLineFeed cs)"
        using c10 by (simp add: lf)
      moreover have "noLoneCR (dropWhile isLineFeed cs)" using ncs by (rule noLoneCR_dropWhile)
      ultimately show ?thesis using that dropWhile_break_after_feed by blast
    next
      case False
      with True have c: "c = 13" by (simp add: isLineBreak_def)
      with 2(3) obtain ds where cs: "cs = 10 # ds" by (cases cs) auto
      have "splitLines acc (c # cs) = rev acc # splitLines [] (dropWhile isLineFeed ds)"
        using c cs by (simp add: lf)
      moreover from ncs cs have "noLoneCR (dropWhile isLineFeed ds)" by (simp add: noLoneCR_dropWhile)
      moreover have "dropWhile isLineBreak (dropWhile isLineFeed ds) = dropWhile isLineBreak cs"
        using cs by (simp add: isLineBreak_def dropWhile_break_after_feed)
      ultimately show ?thesis using that by blast
    qed
    from skip_breaks [OF nu] d ih show ?thesis unfolding l r by simp
  next
    case False
    then have n: "c \<noteq> 10" "c \<noteq> 13" by (simp_all add: isLineBreak_def)
    then have "afterSeparator (c # cs) = None" by simp
    then have l: "splitLines acc (c # cs) = splitLines (c # acc) cs" by (simp del: afterSeparator.simps)
    have r: "splitRuns isLineBreak acc (c # cs) = splitRuns isLineBreak (c # acc) cs"
      using False by simp
    from 2(2) [OF False ncs] show ?thesis unfolding l r .
  qed
qed

lemma segmentInstructions_breaks: "noLoneCR t \<Longrightarrow> segmentInstructions (Some t) = segmentSpec t"
proof (cases "t = []")
  case True
  then show ?thesis
    by (simp add: segmentInstructions_def segmentSpec_def truthy_def stripMarker_def trim_def)
next
  case False
  assume n: "noLoneCR t"
  have tr: "truthy = (\<lambda>piece. piece \<noteq> [])" by (auto simp: truthy_def)
  show ?thesis
    unfolding segmentInstructions_def segmentSpec_def tr using False by (simp add: split_agree_breaks [OF n])
qed

lemma segment_one_line:
  assumes "10 \<notin> set t"
  shows "segmentInstructions (Some t) = filter (\<lambda>piece. piece \<noteq> []) [trim (stripMarker t)]"
proof (cases "t = []")
  case True
  then show ?thesis by (simp add: segmentInstructions_def truthy_def stripMarker_def trim_def)
next
  case False
  have tr: "truthy = (\<lambda>piece. piece \<noteq> [])" by (auto simp: truthy_def)
  show ?thesis
    unfolding segmentInstructions_def tr using False by (simp add: splitLines_last_piece [OF assms])
qed

lemmas spec_eval =
  segmentSpec_def isLineBreak_def truthy_def stripMarker_def trim_def is_space_def is_digit_def js_def

section \<open>C3: the instruction segmenter\<close>

text \<open>
  C3 as stated fails: a carriage return is a line-break character, but the code does not
  split at a carriage return that no line feed follows.
\<close>

theorem line_break_counterexample:
  "segmentInstructions (Some (js ''1. Mix'' @ 13 # js ''2. Bake'')) = [js ''Mix'' @ 13 # js ''2. Bake'']
   \<and> segmentSpec (js ''1. Mix'' @ 13 # js ''2. Bake'') = [js ''Mix'', js ''Bake'']
   \<and> segmentInstructions (Some (js ''1. Mix'' @ 13 # js ''2. Bake'')) \<noteq>
       segmentSpec (js ''1. Mix'' @ 13 # js ''2. Bake'')"
proof -
  have a: "segmentInstructions (Some (js ''1. Mix'' @ 13 # js ''2. Bake'')) = [js ''Mix'' @ 13 # js ''2. Bake'']"
    by (simp add: segment_eval)
  have b: "segmentSpec (js ''1. Mix'' @ 13 # js ''2. Bake'') = [js ''Mix'', js ''Bake'']"
    by (simp add: spec_eval)
  show ?thesis unfolding a b by (simp add: js_def)
qed

text \<open>
  C3, amended. The segmenter returns the empty sequence for absent input. For every present
  text its result is that of splitting on runs of one or more line feeds (a carriage return
  directly before a run goes with it), stripping from the start of each piece one marker (one
  or more digits, then \<open>)\<close> or \<open>.\<close>, then any whitespace), trimming, and dropping the pieces that
  became empty, in order. A text without line feed is a single piece, whatever carriage
  returns it has. Where every carriage return is directly followed by a line feed, this is
  the splitting on runs of line-break characters. A piece that does not begin with a marker
  is only trimmed. The example of the specification holds.
\<close>

theorem segmenter_rule:
  "segmentInstructions None = []
   \<and> preparationSteps None = []
   \<and> preparationSteps (Some recipe) = segmentInstructions (instructions recipe)
   \<and> segmentInstructions (Some text) = segmentOnLineFeeds text
   \<and> (noLoneCR text \<longrightarrow> segmentInstructions (Some text) = segmentSpec text)
   \<and> (10 \<notin> set text \<longrightarrow>
        segmentInstructions (Some text) = filter (\<lambda>piece. piece \<noteq> []) [trim (stripMarker text)])
   \<and> (ds \<noteq> [] \<and> list_all is_digit ds \<and> (p = 41 \<or> p = 46) \<longrightarrow>
        stripMarker (ds @ p # rest) = dropWhile is_space rest)
   \<and> (\<not> beginsWithMarker piece \<longrightarrow> stripMarker piece = piece)
   \<and> (beginsWithMarker piece \<longleftrightarrow>
        (\<exists>ds p rest. piece = ds @ p # rest \<and> ds \<noteq> [] \<and> list_all is_digit ds \<and> (p = 41 \<or> p = 46)))
   \<and> segmentInstructions (Some (js ''1. Boil water\<newline>2) Add salt\<newline>\<newline>Serve hot'')) =
       [js ''Boil water'', js ''Add salt'', js ''Serve hot'']"
proof (intro conjI impI)
  show "segmentInstructions None = []" by (simp add: segmentInstructions_def)
  show "preparationSteps None = []" by (simp add: preparationSteps_def segmentInstructions_def)
  show "preparationSteps (Some recipe) = segmentInstructions (instructions recipe)"
    by (simp add: preparationSteps_def)
  show "segmentInstructions (Some text) = segmentOnLineFeeds text" by (rule segmentInstructions_lineFeeds)
  show "beginsWithMarker piece \<longleftrightarrow>
        (\<exists>ds p rest. piece = ds @ p # rest \<and> ds \<noteq> [] \<and> list_all is_digit ds \<and> (p = 41 \<or> p = 46))"
    by (rule beginsWithMarker_iff)
  show "segmentInstructions (Some (js ''1. Boil water\<newline>2) Add salt\<newline>\<newline>Serve hot'')) =
       [js ''Boil water'', js ''Add salt'', js ''Serve hot'']"
    by (simp add: segment_eval)
next
  assume "noLoneCR text"
  then show "segmentInstructions (Some text) = segmentSpec text" by (rule segmentInstructions_breaks)
next
  assume "10 \<notin> set text"
  then show "segmentInstructions (Some text) = filter (\<lambda>piece. piece \<noteq> []) [trim (stripMarker text)]"
    by (rule segment_one_line)
next
  assume "ds \<noteq> [] \<and> list_all is_digit ds \<and> (p = 41 \<or> p = 46)"
  then show "stripMarker (ds @ p # rest) = dropWhile is_space rest"
    by (simp add: stripMarker_marker)
next
  assume "\<not> beginsWithMarker piece"
  then show "stripMarker piece = piece" by (rule stripMarker_no_marker)
qed

theorem segmenter_rule_witness:
  "noLoneCR (js ''1. Mix'' @ 13 # 10 # js ''2) Bake'')
   \<and> segmentInstructions (Some (js ''1. Mix'' @ 13 # 10 # js ''2) Bake'')) = [js ''Mix'', js ''Bake'']
   \<and> 10 \<notin> set (js ''3. Serve hot'')
   \<and> segmentInstructions (Some (js ''3. Serve hot'')) = [js ''Serve hot'']
   \<and> js ''12'' \<noteq> [] \<and> list_all is_digit (js ''12'')
   \<and> stripMarker (js ''12'' @ 41 # js ''  Stir'') = js ''Stir''
   \<and> \<not> beginsWithMarker (js ''Serve hot'') \<and> stripMarker (js ''Serve hot'') = js ''Serve hot''"
proof -
  have c: "noLoneCR (js ''1. Mix'' @ 13 # 10 # js ''2) Bake'')" by (simp add: js_def)
  have sp: "segmentSpec (js ''1. Mix'' @ 13 # 10 # js ''2) Bake'') = [js ''Mix'', js ''Bake'']"
    by (simp add: spec_eval)
  have o: "10 \<notin> set (js ''3. Serve hot'')" by (simp add: js_def)
  have ot: "filter (\<lambda>piece. piece \<noteq> []) [trim (stripMarker (js ''3. Serve hot''))] = [js ''Serve hot'']"
    by (simp add: spec_eval)
  have h: "js ''12'' \<noteq> [] \<and> list_all is_digit (js ''12'') \<and> ((41::nat) = 41 \<or> (41::nat) = 46)"
    by (simp add: js_def is_digit_def)
  have n: "\<not> beginsWithMarker (js ''Serve hot'')"
    by (simp add: beginsWithMarker_def js_def is_digit_def)
  have d: "dropWhile is_space (js ''  Stir'') = js ''Stir''"
    by (simp add: js_def is_space_def)
  note r1 = segmenter_rule [of "mapMealToRecipe blankMeal" "js ''1. Mix'' @ 13 # 10 # js ''2) Bake''"
      "js ''12''" 41 "js ''  Stir''" "js ''Serve hot''"]
  note r2 = segmenter_rule [of "mapMealToRecipe blankMeal" "js ''3. Serve hot''"
      "js ''12''" 41 "js ''  Stir''" "js ''Serve hot''"]
  from r1 c have "segmentInstructions (Some (js ''1. Mix'' @ 13 # 10 # js ''2) Bake'')) =
      segmentSpec (js ''1. Mix'' @ 13 # 10 # js ''2) Bake'')"
    by blast
  with sp have 1: "segmentInstructions (Some (js ''1. Mix'' @ 13 # 10 # js ''2) Bake'')) = [js ''Mix'', js ''Bake'']"
    by (simp only:)
  from r2 o have "segmentInstructions (Some (js ''3. Serve hot'')) =
      filter (\<lambda>piece. piece \<noteq> []) [trim (stripMarker (js ''3. Serve hot''))]"
    by blast
  with ot have 2: "segmentInstructions (Some (js ''3. Serve hot'')) = [js ''Serve hot'']"
    by (simp only:)
  from r2 h have "stripMarker (js ''12'' @ 41 # js ''  Stir'') = dropWhile is_space (js ''  Stir'')"
    by blast
  with d have 3: "stripMarker (js ''12'' @ 41 # js ''  Stir'') = js ''Stir''"
    by (simp only:)
  from r2 n have 4: "stripMarker (js ''Serve hot'') = js ''Serve hot''"
    by blast
  from c o h n 1 2 3 4 show ?thesis by blast
qed

section \<open>C4: segmenting again\<close>

text \<open>
  C4 as stated fails: a step that itself begins with a marker loses it on the second pass.
\<close>

theorem idempotence_counterexample:
  "segmentInstructions (Some (joinLines (segmentInstructions (Some (js ''1. 2.5 cups flour''))))) \<noteq>
   segmentInstructions (Some (js ''1. 2.5 cups flour''))"
proof -
  have a: "segmentInstructions (Some (js ''1. 2.5 cups flour'')) = [js ''2.5 cups flour'']"
    by (simp add: segment_eval)
  have b: "segmentInstructions (Some (js ''2.5 cups flour'')) = [js ''5 cups flour'']"
    by (simp add: segment_eval)
  show ?thesis unfolding a by (simp add: b) (simp add: js_def)
qed

text \<open>
  C4, amended. Segmenting the output joined with line feeds strips a marker from, and trims,
  each step once more; it yields the same sequence whenever no step of the first segmentation
  begins with a marker.
\<close>

theorem resegment_rule:
  "segmentInstructions (Some (joinLines (segmentInstructions ins))) =
     filter (\<lambda>s. s \<noteq> []) (map (\<lambda>s. trim (stripMarker s)) (segmentInstructions ins))
   \<and> (list_all (\<lambda>s. \<not> beginsWithMarker s) (segmentInstructions ins) \<longrightarrow>
        segmentInstructions (Some (joinLines (segmentInstructions ins))) = segmentInstructions ins)"
proof (intro conjI impI)
  show "segmentInstructions (Some (joinLines (segmentInstructions ins))) =
     filter (\<lambda>s. s \<noteq> []) (map (\<lambda>s. trim (stripMarker s)) (segmentInstructions ins))"
    by (rule resegment)
next
  assume a: "list_all (\<lambda>s. \<not> beginsWithMarker s) (segmentInstructions ins)"
  have "\<forall>s\<in>set (segmentInstructions ins). trim (stripMarker s) = s \<and> s \<noteq> []"
  proof
    fix s assume s: "s \<in> set (segmentInstructions ins)"
    with a have "stripMarker s = s" by (simp add: list_all_iff stripMarker_no_marker)
    moreover from s segment_steps_trimmed [of ins] have "trimmedLine s" by simp
    ultimately show "trim (stripMarker s) = s \<and> s \<noteq> []"
      by (simp add: trimmedLine_def trim_id)
  qed
  then have "filter (\<lambda>s. s \<noteq> []) (map (\<lambda>s. trim (stripMarker s)) (segmentInstructions ins)) =
      segmentInstructions ins"
    by (rule filter_map_id)
  then show "segmentInstructions (Some (joinLines (segmentInstructions ins))) = segmentInstructions ins"
    by (simp add: resegment)
qed

theorem resegment_rule_witness:
  "list_all (\<lambda>s. \<not> beginsWithMarker s)
     (segmentInstructions (Some (js ''1. Boil water\<newline>2) Add salt\<newline>\<newline>Serve hot'')))
   \<and> segmentInstructions (Some (joinLines
        (segmentInstructions (Some (js ''1. Boil water\<newline>2) Add salt\<newline>\<newline>Serve hot''))))) =
       [js ''Boil water'', js ''Add salt'', js ''Serve hot'']"
proof -
  have a: "segmentInstructions (Some (js ''1. Boil water\<newline>2) Add salt\<newline>\<newline>Serve hot'')) =
       [js ''Boil water'', js ''Add salt'', js ''Serve hot'']"
    by (simp add: segment_eval)
  have b: "list_all (\<lambda>s. \<not> beginsWithMarker s) [js ''Boil water'', js ''Add salt'', js ''Serve hot'']"
    by (simp add: beginsWithMarker_def js_def is_digit_def)
  from resegment_rule [of "Some (js ''1. Boil water\<newline>2) Add salt\<newline>\<newline>Serve hot'')"] b
  have "segmentInstructions (Some (joinLines [js ''Boil water'', js ''Add salt'', js ''Serve hot''])) =
      [js ''Boil water'', js ''Add salt'', js ''Serve hot'']"
    unfolding a by blast
  with b show ?thesis unfolding a by blast
qed

section \<open>Facts about toDecimal\<close>

lemma toDecimal_digits: "list_all is_digit (toDecimal n)"
proof (induction n rule: toDecimal.induct)
  case (1 n)
  show ?case
  proof (cases "n < 10")
    case True
    then show ?thesis by (simp add: toDecimal.simps [of n] is_digit_def)
  next
    case False
    have "n mod 10 < 10" by simp
    then have "is_digit (48 + n mod 10)" unfolding is_digit_def by linarith
    with False 1 show ?thesis by (simp add: toDecimal.simps [of n])
  qed
qed

lemma decimalValue_toDecimal: "decimalValue (toDecimal n) = n"
proof (induction n rule: toDecimal.induct)
  case (1 n)
  show ?case
  proof (cases "n < 10")
    case True
    then show ?thesis by (simp add: toDecimal.simps [of n] decimalValue_def)
  next
    case False
    with 1 have "decimalValue (toDecimal (n div 10)) = n div 10" by simp
    with False show ?thesis by (simp add: toDecimal.simps [of n] decimalValue_def)
  qed
qed

section \<open>C5: the response envelope\<close>

text \<open>
  C5. For a successful response whose body parses: when \<open>meals\<close> is \<open>null\<close>, \<open>loadRecipes\<close> succeeds
  with the empty sequence (the results become empty and the status idle, no error); when
  \<open>meals\<close> is present but neither \<open>null\<close> nor an array, it fails with the malformed-data error;
  when \<open>meals\<close> is an array, every element is mapped through \<open>mapMealToRecipe\<close>, in the
  server's order.
\<close>

theorem envelope_cases:
  "loadRecipesTry (FetchResolves (r\<lparr>ok := True, json := JsonResolves (PValue FNull)\<rparr>)) = Inr []
   \<and> recipes (fetchAndTrackSettle (FetchResolves (r\<lparr>ok := True, json := JsonResolves (PValue FNull)\<rparr>)) s) = []
   \<and> status (fetchAndTrackSettle (FetchResolves (r\<lparr>ok := True, json := JsonResolves (PValue FNull)\<rparr>)) s) = Idle
   \<and> loadRecipesTry (FetchResolves (r\<lparr>ok := True, json := JsonResolves (PValue FOther)\<rparr>)) =
       Inl (ErrorObj (js ''Recipe data malformed: missing meals array.''))
   \<and> loadRecipesTry (FetchResolves (r\<lparr>ok := True, json := JsonResolves (PValue (FArray meals))\<rparr>)) =
       Inr (map mapMealToRecipe meals)"
  by (simp add: loadRecipesTry_def payloadMeals_def fetchAndTrackSettle_def)

theorem envelope_cases_witness:
  "loadRecipesTry (FetchResolves (okResponse (PValue FNull))) = Inr []
   \<and> loadRecipesTry (FetchResolves (okResponse (PValue FOther))) =
       Inl (ErrorObj (js ''Recipe data malformed: missing meals array.''))
   \<and> loadRecipesTry (FetchResolves (okResponse (PValue (FArray [blankMeal, blankMeal\<lparr>idMeal := js ''7''\<rparr>])))) =
       Inr [mapMealToRecipe blankMeal, mapMealToRecipe (blankMeal\<lparr>idMeal := js ''7''\<rparr>)]"
  using envelope_cases [of "okResponse PNullish" initialApp "[blankMeal, blankMeal\<lparr>idMeal := js ''7''\<rparr>]"]
  by (simp add: okResponse_def)

section \<open>C6: a non-success status\<close>

text \<open>
  C6. For every response whose \<open>ok\<close> flag is false, \<open>loadRecipes\<close> fails with an error whose
  message contains the decimal digits of the status code (they denote the status), and the
  state becomes \<open>error\<close> with that message; for status 500 the message contains "500".
\<close>

theorem http_status_failure:
  "loadRecipesTry (FetchResolves (r\<lparr>ok := False\<rparr>)) =
     Inl (ErrorObj (js ''Unable to reach recipe service (status '' @ toDecimal (response.status r) @ js '')''))
   \<and> list_all is_digit (toDecimal (response.status r))
   \<and> decimalValue (toDecimal (response.status r)) = response.status r
   \<and> status (fetchAndTrackSettle (FetchResolves (r\<lparr>ok := False\<rparr>)) s) = Error
   \<and> errorMessage (fetchAndTrackSettle (FetchResolves (r\<lparr>ok := False\<rparr>)) s) =
       Some (js ''Unable to reach recipe service (status '' @ toDecimal (response.status r) @ js '')'')
   \<and> loadRecipesTry (FetchResolves (r\<lparr>ok := False, response.status := 500\<rparr>)) =
       Inl (ErrorObj (js ''Unable to reach recipe service (status 500)''))"
proof -
  have "toDecimal 500 = js ''500''" by (simp add: toDecimal.simps js_def)
  then have "js ''Unable to reach recipe service (status '' @ toDecimal 500 @ js '')'' =
      js ''Unable to reach recipe service (status 500)''"
    by (simp add: js_def)
  then show ?thesis
    by (simp add: loadRecipesTry_def fetchAndTrackSettle_def catchMessage_def
        toDecimal_digits decimalValue_toDecimal)
qed

theorem http_status_failure_witness:
  "loadRecipesTry (FetchResolves \<lparr> ok = False, status = 404, json = JsonResolves PNullish \<rparr>) =
     Inl (ErrorObj (js ''Unable to reach recipe service (status 404)''))"
proof -
  have "toDecimal 404 = js ''404''" by (simp add: toDecimal.simps js_def)
  then have "js ''Unable to reach recipe service (status '' @ toDecimal 404 @ js '')'' =
      js ''Unable to reach recipe service (status 404)''"
    by (simp add: js_def)
  with http_status_failure [of "\<lparr> ok = False, status = 404, json = JsonResolves PNullish \<rparr>" initialApp]
  show ?thesis by simp
qed

section \<open>Facts about the debounce timer\<close>

lemma fetchAndTrackStart_fields [simp]:
  "timers (fetchAndTrackStart term b s) = timers s"
  "query (fetchAndTrackStart term b s) = query s"
  "clock (fetchAndTrackStart term b s) = clock s"
  "nextHandle (fetchAndTrackStart term b s) = nextHandle s"
  "searchTimeoutRef (fetchAndTrackStart term b s) = searchTimeoutRef s"
  "initialLoadRef (fetchAndTrackStart term b s) = initialLoadRef s"
  "issued (fetchAndTrackStart term b s) = issued s @ [term]"
  by (simp_all add: fetchAndTrackStart_def)

lemma fetchAndTrackSettle_fields [simp]:
  "timers (fetchAndTrackSettle fr s) = timers s"
  "query (fetchAndTrackSettle fr s) = query s"
  "clock (fetchAndTrackSettle fr s) = clock s"
  "nextHandle (fetchAndTrackSettle fr s) = nextHandle s"
  "searchTimeoutRef (fetchAndTrackSettle fr s) = searchTimeoutRef s"
  "initialLoadRef (fetchAndTrackSettle fr s) = initialLoadRef s"
  "issued (fetchAndTrackSettle fr s) = issued s"
  by (simp_all add: fetchAndTrackSettle_def split: sum.splits)

lemma resolve_fields [simp]:
  "timers (resolve i fr s) = timers s"
  "query (resolve i fr s) = query s"
  "clock (resolve i fr s) = clock s"
  "nextHandle (resolve i fr s) = nextHandle s"
  "searchTimeoutRef (resolve i fr s) = searchTimeoutRef s"
  "initialLoadRef (resolve i fr s) = initialLoadRef s"
  "issued (resolve i fr s) = issued s"
  by (simp_all add: resolve_def Let_def)

lemma onRefresh_fields [simp]:
  "timers (onRefresh s) = timers s"
  "query (onRefresh s) = query s"
  "clock (onRefresh s) = clock s"
  "nextHandle (onRefresh s) = nextHandle s"
  "searchTimeoutRef (onRefresh s) = searchTimeoutRef s"
  "initialLoadRef (onRefresh s) = initialLoadRef s"
  "issued (onRefresh s) = issued s @ [trim (query s)]"
  by (simp_all add: onRefresh_def)

lemma retry_fields [simp]:
  "timers (retry s) = timers s"
  "query (retry s) = query s"
  "clock (retry s) = clock s"
  "nextHandle (retry s) = nextHandle s"
  "searchTimeoutRef (retry s) = searchTimeoutRef s"
  "initialLoadRef (retry s) = initialLoadRef s"
  by (simp_all add: retry_def)

lemma retry_issued: "issued (retry s) = issued s \<or> issued (retry s) = issued s @ [trim (query s)]"
  by (simp add: retry_def)

lemma debounceInv_mount: "debounceInv (mount initialApp)"
  by (simp add: debounceInv_def mount_def debounceEffect_def initialApp_def fetchAndTrackStart_def)

lemma clearPending_fields [simp]:
  "query (clearPending s) = query s"
  "clock (clearPending s) = clock s"
  "nextHandle (clearPending s) = nextHandle s"
  "searchTimeoutRef (clearPending s) = searchTimeoutRef s"
  "initialLoadRef (clearPending s) = initialLoadRef s"
  "issued (clearPending s) = issued s"
  "hasCleanup (clearPending s) = hasCleanup s"
  by (simp_all add: clearPending_def clearTimeout_def split: option.splits)

lemma clearPending_timers:
  assumes "\<forall>(h, due, q)\<in>set (timers s). searchTimeoutRef s = Some h \<and> h \<noteq> 0"
  shows "timers (clearPending s) = []"
proof (cases "searchTimeoutRef s")
  case None
  with assms have "timers s = []" by (cases "timers s") auto
  with None show ?thesis by (simp add: clearPending_def)
next
  case (Some h)
  show ?thesis
  proof (cases "h = 0")
    case True
    with assms Some have "timers s = []" by (cases "timers s") auto
    with Some True show ?thesis by (simp add: clearPending_def)
  next
    case False
    from assms Some have "filter (\<lambda>(h', due, q). h' \<noteq> h) (timers s) = []"
      by (auto simp: filter_empty_conv)
    with Some False show ?thesis by (simp add: clearPending_def clearTimeout_def)
  qed
qed

lemma setQuery_arms:
  assumes "debounceInv s" "t \<noteq> query s"
  shows "timers (setQuery t s) = [(nextHandle s, clock s + 450, t)]"
    and "searchTimeoutRef (setQuery t s) = Some (nextHandle s)"
    and "nextHandle (setQuery t s) = nextHandle s + 1"
    and "query (setQuery t s) = t"
    and "clock (setQuery t s) = clock s"
    and "issued (setQuery t s) = issued s"
    and "initialLoadRef (setQuery t s) = False"
proof -
  let ?s1 = "s\<lparr>query := t\<rparr>"
  let ?s2 = "if hasCleanup ?s1 then clearPending ?s1 else ?s1"
  from assms(1) have c: "\<forall>(h, due, q)\<in>set (timers ?s1). searchTimeoutRef ?s1 = Some h \<and> h \<noteq> 0"
    by (auto simp: debounceInv_def)
  have c2: "\<forall>(h, due, q)\<in>set (timers ?s2). searchTimeoutRef ?s2 = Some h \<and> h \<noteq> 0"
    using c by (simp add: clearPending_timers [OF c])
  have e: "timers (clearPending ?s2) = []" by (rule clearPending_timers [OF c2])
  from assms(1) have i: "\<not> initialLoadRef ?s2" by (simp add: debounceInv_def)
  have sq: "setQuery t s = debounceEffect ?s2"
    using assms(2) by (simp add: setQuery_def Let_def)
  show "timers (setQuery t s) = [(nextHandle s, clock s + 450, t)]"
    unfolding sq debounceEffect_def Let_def using i e by simp
  show "searchTimeoutRef (setQuery t s) = Some (nextHandle s)"
    unfolding sq debounceEffect_def Let_def using i by simp
  show "nextHandle (setQuery t s) = nextHandle s + 1"
    unfolding sq debounceEffect_def Let_def using i by simp
  show "query (setQuery t s) = t"
    unfolding sq debounceEffect_def Let_def using i by simp
  show "clock (setQuery t s) = clock s"
    unfolding sq debounceEffect_def Let_def using i by simp
  show "issued (setQuery t s) = issued s"
    unfolding sq debounceEffect_def Let_def using i by simp
  show "initialLoadRef (setQuery t s) = False"
    unfolding sq debounceEffect_def Let_def using i by simp
qed

lemma debounceInv_setQuery:
  assumes "debounceInv s"
  shows "debounceInv (setQuery t s)"
proof (cases "t = query s")
  case True
  with assms show ?thesis by (simp add: setQuery_def)
next
  case False
  from assms have "0 < nextHandle s" by (simp add: debounceInv_def)
  with setQuery_arms [OF assms False] show ?thesis
    by (simp add: debounceInv_def)
qed

lemma fold_fires_fields:
  fixes due :: "(nat \<times> nat \<times> jsstring) list"
  shows "query (fold (\<lambda>(h, d, q). fetchAndTrackStart (trim q) False) due s) = query s \<and>
      clock (fold (\<lambda>(h, d, q). fetchAndTrackStart (trim q) False) due s) = clock s \<and>
      nextHandle (fold (\<lambda>(h, d, q). fetchAndTrackStart (trim q) False) due s) = nextHandle s \<and>
      searchTimeoutRef (fold (\<lambda>(h, d, q). fetchAndTrackStart (trim q) False) due s) = searchTimeoutRef s \<and>
      initialLoadRef (fold (\<lambda>(h, d, q). fetchAndTrackStart (trim q) False) due s) = initialLoadRef s"
  by (induction due arbitrary: s) (auto simp: case_prod_beta)

lemma tick_fields [simp]:
  "query (tick s) = query s"
  "clock (tick s) = clock s + 1"
  "nextHandle (tick s) = nextHandle s"
  "searchTimeoutRef (tick s) = searchTimeoutRef s"
  "initialLoadRef (tick s) = initialLoadRef s"
  by (simp_all add: tick_def Let_def fold_fires_fields)

lemma tick_idle:
  assumes "timers s = []"
  shows "timers (tick s) = []" and "issued (tick s) = issued s"
  using assms by (simp_all add: tick_def Let_def)

lemma tick_waits:
  assumes "timers s = [(h, due, q)]" "clock s + 1 < due"
  shows "timers (tick s) = [(h, due, q)]" and "issued (tick s) = issued s"
  using assms by (simp_all add: tick_def Let_def)

lemma tick_fires:
  assumes "timers s = [(h, due, q)]" "due \<le> clock s + 1"
  shows "timers (tick s) = []" and "issued (tick s) = issued s @ [trim q]"
  using assms by (simp_all add: tick_def Let_def)

lemma debounceInv_tick:
  assumes "debounceInv s"
  shows "debounceInv (tick s)"
proof (cases "timers s")
  case Nil
  with assms tick_idle [OF Nil] show ?thesis by (simp add: debounceInv_def)
next
  case (Cons x xs)
  with assms have xs: "xs = []" by (simp add: debounceInv_def)
  obtain h due q where x: "x = (h, due, q)" by (cases x)
  with Cons xs have t: "timers s = [(h, due, q)]" by simp
  show ?thesis
  proof (cases "clock s + 1 < due")
    case True
    with assms t tick_waits [OF t True] show ?thesis by (simp add: debounceInv_def)
  next
    case False
    then have "due \<le> clock s + 1" by simp
    with assms t tick_fires [OF t this] show ?thesis by (simp add: debounceInv_def)
  qed
qed

lemma debounceInv_step:
  assumes "debounceInv s"
  shows "debounceInv (step e s)"
proof (cases e)
  case (ChangeText t)
  with assms show ?thesis by (simp add: debounceInv_setQuery)
next
  case Tick
  with assms show ?thesis by (simp add: debounceInv_tick)
next
  case Refresh
  with assms show ?thesis by (simp add: debounceInv_def)
next
  case Retry
  with assms show ?thesis by (simp add: debounceInv_def)
next
  case (Resolve i fr)
  with assms show ?thesis by (simp add: debounceInv_def)
next
  case (Select r)
  with assms show ?thesis by (simp add: debounceInv_def)
qed

lemma debounceInv_run: "debounceInv s \<Longrightarrow> debounceInv (run evs s)"
  by (induction evs arbitrary: s) (simp_all add: debounceInv_step)

lemma debounceInv_reachable: "debounceInv (run evs (mount initialApp))"
  by (rule debounceInv_run [OF debounceInv_mount])

lemma run_append: "run (xs @ ys) s = run ys (run xs s)"
  by (induction xs arbitrary: s) simp_all

lemma js_Nil [simp]: "js [] = []"
  by (simp add: js_def)

lemma ticks_idle:
  "timers s = [] \<Longrightarrow>
     timers (run (replicate n Tick) s) = [] \<and> issued (run (replicate n Tick) s) = issued s \<and>
     query (run (replicate n Tick) s) = query s"
proof (induction n arbitrary: s)
  case 0
  then show ?case by simp
next
  case (Suc n)
  from tick_idle [OF Suc.prems] Suc.IH [of "tick s"] show ?case by simp
qed

lemma ticks_wait:
  "timers s = [(h, due, q)] \<Longrightarrow> clock s + n < due \<Longrightarrow>
     timers (run (replicate n Tick) s) = [(h, due, q)] \<and> issued (run (replicate n Tick) s) = issued s \<and>
     query (run (replicate n Tick) s) = query s \<and> clock (run (replicate n Tick) s) = clock s + n"
proof (induction n arbitrary: s)
  case 0
  then show ?case by simp
next
  case (Suc n)
  from Suc.prems have w: "clock s + 1 < due" by simp
  from tick_waits [OF Suc.prems(1) w] Suc.prems(2) Suc.IH [of "tick s"] show ?case by simp
qed

lemma ticks_fire:
  "timers s = [(h, due, q)] \<Longrightarrow> clock s < due \<Longrightarrow> due \<le> clock s + n \<Longrightarrow>
     timers (run (replicate n Tick) s) = [] \<and> issued (run (replicate n Tick) s) = issued s @ [trim q] \<and>
     query (run (replicate n Tick) s) = query s"
proof (induction n arbitrary: s)
  case 0
  then show ?case by simp
next
  case (Suc n)
  show ?case
  proof (cases "clock s + 1 < due")
    case True
    from tick_waits [OF Suc.prems(1) True] True Suc.prems(3) Suc.IH [of "tick s"] show ?thesis by simp
  next
    case False
    then have d: "due \<le> clock s + 1" by simp
    from tick_fires [OF Suc.prems(1) d] ticks_idle [of "tick s" n] show ?thesis by simp
  qed
qed

lemma burst_issued:
  "debounceInv s \<Longrightarrow> withinWindow (query s) b \<Longrightarrow>
     issued (run (burst b) s) = issued s @ [trim (fst (last b))] \<and> timers (run (burst b) s) = []"
proof (induction b arbitrary: s)
  case Nil
  then show ?case by simp
next
  case (Cons x b)
  obtain t gap where x: "x = (t, gap)" by (cases x)
  show ?case
  proof (cases b)
    case Nil
    with Cons.prems x have c: "t \<noteq> query s" and g: "450 \<le> gap" by simp_all
    note a = setQuery_arms [OF Cons.prems(1) c]
    from g a(5) have "clock (setQuery t s) < clock s + 450" "clock s + 450 \<le> clock (setQuery t s) + gap"
      by simp_all
    from ticks_fire [OF a(1) this] a(6) Nil x show ?thesis by (simp add: run_append)
  next
    case (Cons y ys)
    with Cons.prems x have c: "t \<noteq> query s" and g: "gap < 450" and w: "withinWindow t (y # ys)"
      by (cases y, simp)+
    note a = setQuery_arms [OF Cons.prems(1) c]
    let ?s' = "run (replicate gap Tick) (setQuery t s)"
    from g a(5) have "clock (setQuery t s) + gap < clock s + 450" by simp
    from ticks_wait [OF a(1) this] a have q: "query ?s' = t" and i: "issued ?s' = issued s" by simp_all
    have "debounceInv ?s'"
      by (intro debounceInv_run debounceInv_setQuery Cons.prems(1))
    from Cons.IH [OF this] w q Cons
    have "issued (run (burst b) ?s') = issued ?s' @ [trim (fst (last b))] \<and> timers (run (burst b) ?s') = []"
      by simp
    with i x Cons show ?thesis by (simp add: run_append)
  qed
qed

lemma passive_step:
  "timers s = [] \<Longrightarrow> noUserAction e \<Longrightarrow> timers (step e s) = [] \<and> issued (step e s) = issued s"
  by (cases e) (simp_all add: tick_idle)

lemma passive_run:
  "timers s = [] \<Longrightarrow> \<forall>e\<in>set evs. noUserAction e \<Longrightarrow>
     timers (run evs s) = [] \<and> issued (run evs s) = issued s"
proof (induction evs arbitrary: s)
  case Nil
  then show ?case by simp
next
  case (Cons e evs)
  from Cons.prems have "timers (step e s) = [] \<and> issued (step e s) = issued s"
    by (simp add: passive_step)
  with Cons.IH [of "step e s"] Cons.prems(2) show ?case by simp
qed

lemma tick_issued:
  assumes "debounceInv s"
  shows "issued (tick s) = issued s \<or> issued (tick s) = issued s @ [trim (query s)]"
proof (cases "timers s")
  case Nil
  then show ?thesis by (simp add: tick_idle)
next
  case (Cons x xs)
  with assms have xs: "xs = []" by (simp add: debounceInv_def)
  obtain h due q where x: "x = (h, due, q)" by (cases x)
  with Cons xs have t: "timers s = [(h, due, q)]" by simp
  with assms have q: "q = query s" by (simp add: debounceInv_def)
  show ?thesis
  proof (cases "clock s + 1 < due")
    case True
    from tick_waits [OF t True] show ?thesis by simp
  next
    case False
    then have "due \<le> clock s + 1" by simp
    from tick_fires [OF t this] q show ?thesis by simp
  qed
qed

section \<open>C8: the debounce window\<close>

text \<open>
  C8. From any state reached after mounting, for every burst of text changes that fall within
  the 450-unit window of one another: exactly one dispatch is issued, with the trimmed last
  text; at every moment of the burst at most one timer is pending; and after any change of
  the text the only pending timer is the one just armed.
\<close>

theorem debounce_burst:
  assumes "withinWindow (query (run evs (mount initialApp))) b"
  shows "issued (run (burst b) (run evs (mount initialApp))) =
           issued (run evs (mount initialApp)) @ [trim (fst (last b))]
       \<and> (\<forall>k. length (timers (run (take k (burst b)) (run evs (mount initialApp)))) \<le> 1)
       \<and> (\<forall>t. t \<noteq> query (run evs (mount initialApp)) \<longrightarrow>
            timers (setQuery t (run evs (mount initialApp))) =
              [(nextHandle (run evs (mount initialApp)), clock (run evs (mount initialApp)) + 450, t)])"
proof (intro conjI allI impI)
  show "issued (run (burst b) (run evs (mount initialApp))) =
           issued (run evs (mount initialApp)) @ [trim (fst (last b))]"
    using burst_issued [OF debounceInv_reachable assms] by simp
next
  fix k
  have "debounceInv (run (take k (burst b)) (run evs (mount initialApp)))"
    by (intro debounceInv_run debounceInv_reachable)
  then show "length (timers (run (take k (burst b)) (run evs (mount initialApp)))) \<le> 1"
    by (simp add: debounceInv_def)
next
  fix t assume "t \<noteq> query (run evs (mount initialApp))"
  from setQuery_arms(1) [OF debounceInv_reachable this]
  show "timers (setQuery t (run evs (mount initialApp))) =
              [(nextHandle (run evs (mount initialApp)), clock (run evs (mount initialApp)) + 450, t)]" .
qed

lemma mount_fields:
  "query (mount initialApp) = []" "issued (mount initialApp) = [[]]" "timers (mount initialApp) = []"
  "status (mount initialApp) = Loading" "nextHandle (mount initialApp) = 1" "clock (mount initialApp) = 0"
  by (simp_all add: mount_def debounceEffect_def initialApp_def fetchAndTrackStart_def)

theorem debounce_burst_witness:
  "withinWindow (query (run [] (mount initialApp))) [(js ''a'', 3), (js ''ap'', 449), (js ''apple '', 450)]
   \<and> issued (run (burst [(js ''a'', 3), (js ''ap'', 449), (js ''apple '', 450)]) (run [] (mount initialApp))) =
       [js '''', js ''apple'']
   \<and> timers (setQuery (js ''a'') (run [] (mount initialApp))) = [(1, 450, js ''a'')]"
proof -
  have w: "withinWindow (query (run [] (mount initialApp))) [(js ''a'', 3), (js ''ap'', 449), (js ''apple '', 450)]"
    by (simp add: mount_fields js_def)
  have t: "trim (js ''apple '') = js ''apple''"
    by (simp add: trim_def js_def is_space_def)
  have n: "js ''a'' \<noteq> query (run [] (mount initialApp))"
    by (simp add: mount_fields js_def)
  from debounce_burst [OF w] t n w show ?thesis
    by (simp add: mount_fields del: burst.simps withinWindow.simps)
qed

section \<open>C9: construction\<close>

text \<open>C9 as stated fails at creation: the initial status is \<open>idle\<close>, not \<open>loading\<close>.\<close>

theorem created_status_counterexample: "status initialApp \<noteq> Loading"
  by (simp add: initialApp_def)

text \<open>
  C9, amended. The state is created with status \<open>idle\<close>; mounting issues exactly one dispatch,
  for the empty query, which sets the status to \<open>loading\<close>; the first run of the debounce
  effect arms no timer; and as long as the user does nothing, no further dispatch is issued.
\<close>

theorem mount_single_dispatch:
  "status initialApp = Idle
   \<and> status (mount initialApp) = Loading
   \<and> issued (mount initialApp) = [js '''']
   \<and> timers (mount initialApp) = []
   \<and> (list_all noUserAction evs \<longrightarrow>
        issued (run evs (mount initialApp)) = [js ''''] \<and> timers (run evs (mount initialApp)) = [])"
  using passive_run [of "mount initialApp" evs]
  by (simp add: mount_fields js_def list_all_iff) (simp add: initialApp_def)

theorem mount_single_dispatch_witness:
  "list_all noUserAction [Tick, Resolve 0 (FetchRejects NonError), Select None, Tick]
   \<and> issued (run [Tick, Resolve 0 (FetchRejects NonError), Select None, Tick] (mount initialApp)) = [js '''']
   \<and> timers (run [Tick, Resolve 0 (FetchRejects NonError), Select None, Tick] (mount initialApp)) = []"
  using mount_single_dispatch [of "[Tick, Resolve 0 (FetchRejects NonError), Select None, Tick]"]
  by (simp del: run.simps)

section \<open>Facts about interleaved dispatches\<close>

lemma setQuery_untouched:
  "recipes (setQuery t s) = recipes s"
  "errorMessage (setQuery t s) = errorMessage s"
  "inFlight (setQuery t s) = inFlight s"
  "status (setQuery t s) = status s"
  by (simp_all add: setQuery_def debounceEffect_def clearPending_def clearTimeout_def Let_def
      split: option.splits)

lemma fold_fires_dispatch:
  fixes due :: "(nat \<times> nat \<times> jsstring) list"
  shows "recipes (fold (\<lambda>(h, d, q). fetchAndTrackStart (trim q) False) due s) = recipes s \<and>
      (errorMessage s = None \<longrightarrow>
         errorMessage (fold (\<lambda>(h, d, q). fetchAndTrackStart (trim q) False) due s) = None) \<and>
      (\<exists>ext. inFlight (fold (\<lambda>(h, d, q). fetchAndTrackStart (trim q) False) due s) = inFlight s @ ext)"
proof (induction due arbitrary: s)
  case Nil
  show ?case by simp
next
  case (Cons x due)
  obtain h d q where x: "x = (h, d, q)" by (cases x)
  let ?s = "fetchAndTrackStart (trim q) False s"
  have a: "recipes ?s = recipes s" "errorMessage ?s = None" "inFlight ?s = inFlight s @ [(trim q, False)]"
    by (simp_all add: fetchAndTrackStart_def)
  from Cons [of ?s] a x show ?case by auto
qed

lemma quiet_step:
  assumes "noSettle e"
  shows "recipes (step e s) = recipes s \<and>
         (errorMessage s = None \<longrightarrow> errorMessage (step e s) = None) \<and>
         (\<exists>ext. inFlight (step e s) = inFlight s @ ext)"
proof (cases e)
  case (ChangeText t)
  then show ?thesis by (simp add: setQuery_untouched)
next
  case Tick
  let ?s1 = "s\<lparr>clock := clock s + 1, timers := filter (\<lambda>(h, d, q). \<not> d \<le> clock s + 1) (timers s)\<rparr>"
  from fold_fires_dispatch [of "filter (\<lambda>(h, d, q). d \<le> clock s + 1) (timers s)" ?s1] Tick
  show ?thesis by (simp add: tick_def Let_def)
next
  case Refresh
  then show ?thesis by (simp add: onRefresh_def fetchAndTrackStart_def)
next
  case Retry
  then show ?thesis by (simp add: retry_def fetchAndTrackStart_def)
next
  case (Resolve i fr)
  with assms show ?thesis by simp
next
  case (Select r)
  then show ?thesis by simp
qed

lemma quiet_run:
  "list_all noSettle evs \<Longrightarrow>
     recipes (run evs s) = recipes s \<and>
     (errorMessage s = None \<longrightarrow> errorMessage (run evs s) = None) \<and>
     (\<exists>ext. inFlight (run evs s) = inFlight s @ ext)"
proof (induction evs arbitrary: s)
  case Nil
  show ?case by simp
next
  case (Cons e evs)
  from Cons.prems have e: "noSettle e" and r: "list_all noSettle evs" by simp_all
  from quiet_step [OF e, of s] Cons.IH [OF r, of "step e s"] show ?case by auto
qed

lemma resolve_settles:
  assumes "i < length (inFlight s)"
  shows "case loadRecipesTry fr of
           Inr rs \<Rightarrow>
             status (resolve i fr s) = Idle \<and> recipes (resolve i fr s) = rs \<and>
             errorMessage (resolve i fr s) = errorMessage s
         | Inl e \<Rightarrow>
             status (resolve i fr s) = Error \<and>
             errorMessage (resolve i fr s) = Some (catchMessage e) \<and>
             recipes (resolve i fr s) = recipes s"
  using assms by (simp add: resolve_def fetchAndTrackSettle_def Let_def split: sum.splits)

section \<open>C7: the dispatch transitions\<close>

text \<open>
  C7 as stated fails when two calls are in flight: after the first fails and the second
  succeeds the status is \<open>idle\<close> with the first call's message still set; and a call that
  fails after another one succeeded leaves the other's results, not those from before its
  own dispatch.
\<close>

theorem interleaved_dispatch_counterexample:
  "status (resolve 0 (FetchResolves (okResponse (PValue FNull)))
      (resolve 0 (FetchRejects (ErrorObj (js ''first failed'')))
        (fetchAndTrackStart (js ''ab'') False (fetchAndTrackStart (js ''a'') False initialApp)))) = Idle
   \<and> errorMessage (resolve 0 (FetchResolves (okResponse (PValue FNull)))
      (resolve 0 (FetchRejects (ErrorObj (js ''first failed'')))
        (fetchAndTrackStart (js ''ab'') False (fetchAndTrackStart (js ''a'') False initialApp)))) =
       Some (js ''first failed'')
   \<and> recipes initialApp = []
   \<and> recipes (resolve 0 (FetchRejects (ErrorObj (js ''first failed'')))
      (resolve 1 (FetchResolves (okResponse (PValue (FArray [blankMeal]))))
        (fetchAndTrackStart (js ''ab'') False (fetchAndTrackStart (js ''a'') False initialApp)))) =
       [mapMealToRecipe blankMeal]"
  by (simp add: resolve_def fetchAndTrackSettle_def fetchAndTrackStart_def initialApp_def
      loadRecipesTry_def okResponse_def payloadMeals_def catchMessage_def Let_def)

text \<open>
  C7, amended. From any state, \<open>fetchAndTrack\<close> sets the status to \<open>loading\<close> and clears the
  error message before the transport call settles. Whenever a call settles: on success the
  status is \<open>idle\<close>, the results are the new sequence and the error message is left as it was;
  on failure the status is \<open>error\<close>, the error message is the failure's message and the results
  are left as they were. If no other call settles between the dispatch and the settling of
  its own call, then on success the error message is clear and on failure the results are
  those from before the dispatch.
\<close>

theorem dispatch_transitions:
  "status (fetchAndTrackStart term fromRefresh s) = Loading
   \<and> errorMessage (fetchAndTrackStart term fromRefresh s) = None
   \<and> (i < length (inFlight s') \<longrightarrow>
        (case loadRecipesTry fr of
           Inr rs \<Rightarrow>
             status (resolve i fr s') = Idle \<and> recipes (resolve i fr s') = rs \<and>
             errorMessage (resolve i fr s') = errorMessage s'
         | Inl e \<Rightarrow>
             status (resolve i fr s') = Error \<and>
             errorMessage (resolve i fr s') = Some (catchMessage e) \<and>
             recipes (resolve i fr s') = recipes s'))
   \<and> (list_all noSettle evs \<longrightarrow>
        length (inFlight s) < length (inFlight (run evs (fetchAndTrackStart term fromRefresh s))) \<and>
        inFlight (run evs (fetchAndTrackStart term fromRefresh s)) ! length (inFlight s) =
          (term, fromRefresh) \<and>
        (case loadRecipesTry fr of
           Inr rs \<Rightarrow>
             status (resolve (length (inFlight s)) fr (run evs (fetchAndTrackStart term fromRefresh s))) = Idle \<and>
             recipes (resolve (length (inFlight s)) fr (run evs (fetchAndTrackStart term fromRefresh s))) = rs \<and>
             errorMessage (resolve (length (inFlight s)) fr (run evs (fetchAndTrackStart term fromRefresh s))) = None
         | Inl e \<Rightarrow>
             status (resolve (length (inFlight s)) fr (run evs (fetchAndTrackStart term fromRefresh s))) = Error \<and>
             errorMessage (resolve (length (inFlight s)) fr (run evs (fetchAndTrackStart term fromRefresh s))) =
               Some (catchMessage e) \<and>
             recipes (resolve (length (inFlight s)) fr (run evs (fetchAndTrackStart term fromRefresh s))) =
               recipes s))"
proof (intro conjI impI)
  show "status (fetchAndTrackStart term fromRefresh s) = Loading" by (simp add: fetchAndTrackStart_def)
  show "errorMessage (fetchAndTrackStart term fromRefresh s) = None" by (simp add: fetchAndTrackStart_def)
next
  assume "i < length (inFlight s')"
  then show "case loadRecipesTry fr of
           Inr rs \<Rightarrow>
             status (resolve i fr s') = Idle \<and> recipes (resolve i fr s') = rs \<and>
             errorMessage (resolve i fr s') = errorMessage s'
         | Inl e \<Rightarrow>
             status (resolve i fr s') = Error \<and>
             errorMessage (resolve i fr s') = Some (catchMessage e) \<and>
             recipes (resolve i fr s') = recipes s'"
    by (rule resolve_settles)
next
  let ?s1 = "fetchAndTrackStart term fromRefresh s"
  let ?s2 = "run evs ?s1"
  assume q: "list_all noSettle evs"
  have s1: "recipes ?s1 = recipes s" "errorMessage ?s1 = None"
    "inFlight ?s1 = inFlight s @ [(term, fromRefresh)]"
    by (simp_all add: fetchAndTrackStart_def)
  from quiet_run [OF q, of ?s1] s1 obtain ext where
    r: "recipes ?s2 = recipes s" and e: "errorMessage ?s2 = None"
    and f: "inFlight ?s2 = inFlight s @ (term, fromRefresh) # ext"
    by auto
  from f show len: "length (inFlight s) < length (inFlight ?s2)" by simp
  from f show "inFlight ?s2 ! length (inFlight s) = (term, fromRefresh)" by simp
  from resolve_settles [OF len, of fr] r e
  show "case loadRecipesTry fr of
           Inr rs \<Rightarrow>
             status (resolve (length (inFlight s)) fr ?s2) = Idle \<and>
             recipes (resolve (length (inFlight s)) fr ?s2) = rs \<and>
             errorMessage (resolve (length (inFlight s)) fr ?s2) = None
         | Inl e \<Rightarrow>
             status (resolve (length (inFlight s)) fr ?s2) = Error \<and>
             errorMessage (resolve (length (inFlight s)) fr ?s2) = Some (catchMessage e) \<and>
             recipes (resolve (length (inFlight s)) fr ?s2) = recipes s"
    by (simp split: sum.splits)
qed

theorem dispatch_transitions_witness:
  "0 < length (inFlight (fetchAndTrackStart (js ''pie'') False initialApp))
   \<and> list_all noSettle [ChangeText (js ''a''), Refresh, Tick]
   \<and> status (fetchAndTrackStart (js ''pie'') False initialApp) = Loading
   \<and> status (resolve 0 (FetchRejects (ErrorObj (js ''Network request failed'')))
        (run [ChangeText (js ''a''), Refresh, Tick] (fetchAndTrackStart (js ''pie'') False initialApp))) = Error
   \<and> errorMessage (resolve 0 (FetchRejects (ErrorObj (js ''Network request failed'')))
        (run [ChangeText (js ''a''), Refresh, Tick] (fetchAndTrackStart (js ''pie'') False initialApp))) =
       Some (js ''Network request failed'')
   \<and> recipes (resolve 0 (FetchRejects (ErrorObj (js ''Network request failed'')))
        (run [ChangeText (js ''a''), Refresh, Tick] (fetchAndTrackStart (js ''pie'') False initialApp))) = []
   \<and> status (resolve 0 (FetchResolves (okResponse (PValue (FArray [blankMeal]))))
        (run [ChangeText (js ''a''), Refresh, Tick] (fetchAndTrackStart (js ''pie'') False initialApp))) = Idle
   \<and> recipes (resolve 0 (FetchResolves (okResponse (PValue (FArray [blankMeal]))))
        (run [ChangeText (js ''a''), Refresh, Tick] (fetchAndTrackStart (js ''pie'') False initialApp))) =
       [mapMealToRecipe blankMeal]
   \<and> errorMessage (resolve 0 (FetchResolves (okResponse (PValue (FArray [blankMeal]))))
        (run [ChangeText (js ''a''), Refresh, Tick] (fetchAndTrackStart (js ''pie'') False initialApp))) = None
   \<and> status (resolve 0 (FetchResolves (okResponse (PValue (FArray [blankMeal]))))
        (fetchAndTrackStart (js ''pie'') False initialApp)) = Idle"
proof -
  let ?evs = "[ChangeText (js ''a''), Refresh, Tick]"
  let ?fail = "FetchRejects (ErrorObj (js ''Network request failed''))"
  let ?good = "FetchResolves (okResponse (PValue (FArray [blankMeal])))"
  have i: "length (inFlight initialApp) = 0" "recipes initialApp = []" by (simp_all add: initialApp_def)
  have p: "0 < length (inFlight (fetchAndTrackStart (js ''pie'') False initialApp))"
    by (simp add: fetchAndTrackStart_def)
  have q: "list_all noSettle ?evs" by simp
  have l: "loadRecipesTry ?fail = Inl (ErrorObj (js ''Network request failed''))"
    "loadRecipesTry ?good = Inr [mapMealToRecipe blankMeal]"
    by (simp_all add: loadRecipesTry_def okResponse_def payloadMeals_def)
  have c: "catchMessage (ErrorObj (js ''Network request failed'')) = js ''Network request failed''"
    by (simp add: catchMessage_def)
  note f = dispatch_transitions [of "js ''pie''" False initialApp 0
      "fetchAndTrackStart (js ''pie'') False initialApp" ?fail ?evs]
  note g = dispatch_transitions [of "js ''pie''" False initialApp 0
      "fetchAndTrackStart (js ''pie'') False initialApp" ?good ?evs]
  from f q have 1: "status (fetchAndTrackStart (js ''pie'') False initialApp) = Loading" by blast
  from f q have "case loadRecipesTry ?fail of
           Inr rs \<Rightarrow>
             status (resolve (length (inFlight initialApp)) ?fail (run ?evs (fetchAndTrackStart (js ''pie'') False initialApp))) = Idle \<and>
             recipes (resolve (length (inFlight initialApp)) ?fail (run ?evs (fetchAndTrackStart (js ''pie'') False initialApp))) = rs \<and>
             errorMessage (resolve (length (inFlight initialApp)) ?fail (run ?evs (fetchAndTrackStart (js ''pie'') False initialApp))) = None
         | Inl e \<Rightarrow>
             status (resolve (length (inFlight initialApp)) ?fail (run ?evs (fetchAndTrackStart (js ''pie'') False initialApp))) = Error \<and>
             errorMessage (resolve (length (inFlight initialApp)) ?fail (run ?evs (fetchAndTrackStart (js ''pie'') False initialApp))) =
               Some (catchMessage e) \<and>
             recipes (resolve (length (inFlight initialApp)) ?fail (run ?evs (fetchAndTrackStart (js ''pie'') False initialApp))) =
               recipes initialApp"
    by blast
  then have 2: "status (resolve 0 ?fail (run ?evs (fetchAndTrackStart (js ''pie'') False initialApp))) = Error \<and>
      errorMessage (resolve 0 ?fail (run ?evs (fetchAndTrackStart (js ''pie'') False initialApp))) =
        Some (js ''Network request failed'') \<and>
      recipes (resolve 0 ?fail (run ?evs (fetchAndTrackStart (js ''pie'') False initialApp))) = []"
    unfolding l i by (simp add: c del: run.simps)
  from g q have "case loadRecipesTry ?good of
           Inr rs \<Rightarrow>
             status (resolve (length (inFlight initialApp)) ?good (run ?evs (fetchAndTrackStart (js ''pie'') False initialApp))) = Idle \<and>
             recipes (resolve (length (inFlight initialApp)) ?good (run ?evs (fetchAndTrackStart (js ''pie'') False initialApp))) = rs \<and>
             errorMessage (resolve (length (inFlight initialApp)) ?good (run ?evs (fetchAndTrackStart (js ''pie'') False initialApp))) = None
         | Inl e \<Rightarrow>
             status (resolve (length (inFlight initialApp)) ?good (run ?evs (fetchAndTrackStart (js ''pie'') False initialApp))) = Error \<and>
             errorMessage (resolve (length (inFlight initialApp)) ?good (run ?evs (fetchAndTrackStart (js ''pie'') False initialApp))) =
               Some (catchMessage e) \<and>
             recipes (resolve (length (inFlight initialApp)) ?good (run ?evs (fetchAndTrackStart (js ''pie'') False initialApp))) =
               recipes initialApp"
    by blast
  then have 3: "status (resolve 0 ?good (run ?evs (fetchAndTrackStart (js ''pie'') False initialApp))) = Idle \<and>
      recipes (resolve 0 ?good (run ?evs (fetchAndTrackStart (js ''pie'') False initialApp))) =
        [mapMealToRecipe blankMeal] \<and>
      errorMessage (resolve 0 ?good (run ?evs (fetchAndTrackStart (js ''pie'') False initialApp))) = None"
    unfolding l i by (simp del: run.simps)
  from g p have "case loadRecipesTry ?good of
           Inr rs \<Rightarrow>
             status (resolve 0 ?good (fetchAndTrackStart (js ''pie'') False initialApp)) = Idle \<and>
             recipes (resolve 0 ?good (fetchAndTrackStart (js ''pie'') False initialApp)) = rs \<and>
             errorMessage (resolve 0 ?good (fetchAndTrackStart (js ''pie'') False initialApp)) =
               errorMessage (fetchAndTrackStart (js ''pie'') False initialApp)
         | Inl e \<Rightarrow>
             status (resolve 0 ?good (fetchAndTrackStart (js ''pie'') False initialApp)) = Error \<and>
             errorMessage (resolve 0 ?good (fetchAndTrackStart (js ''pie'') False initialApp)) = Some (catchMessage e) \<and>
             recipes (resolve 0 ?good (fetchAndTrackStart (js ''pie'') False initialApp)) =
               recipes (fetchAndTrackStart (js ''pie'') False initialApp)"
    by blast
  then have 4: "status (resolve 0 ?good (fetchAndTrackStart (js ''pie'') False initialApp)) = Idle"
    unfolding l by simp
  from p q 1 2 3 4 show ?thesis by blast
qed

section \<open>C10: the dispatched term\<close>

lemma tick_issued_exact:
  assumes "debounceInv s"
  shows "issued (tick s) = issued s @ (if timerDue s then [trim (query s)] else [])"
proof (cases "timers s")
  case Nil
  then show ?thesis by (simp add: tick_idle timerDue_def)
next
  case (Cons x xs)
  with assms have xs: "xs = []" by (simp add: debounceInv_def)
  obtain h due q where x: "x = (h, due, q)" by (cases x)
  with Cons xs have t: "timers s = [(h, due, q)]" by simp
  with assms have q: "q = query s" by (simp add: debounceInv_def)
  show ?thesis
  proof (cases "clock s + 1 < due")
    case True
    from tick_waits [OF t True] True t show ?thesis by (simp add: timerDue_def)
  next
    case False
    then have d: "due \<le> clock s + 1" by simp
    from tick_fires [OF t d] q d t show ?thesis by (simp add: timerDue_def)
  qed
qed

lemma retry_issued_exact:
  "issued (retry s) = issued s @ (if retryShown s then [trim (query s)] else [])"
  by (auto simp: retry_def retryShown_def truthy_def split: option.splits)

text \<open>
  C10. In every state reached after mounting: when the pending timer is due, the next time
  unit issues exactly one dispatch, with the current query text trimmed, and otherwise
  none; refresh always issues one with the current text trimmed; the retry action issues one
  with the current text trimmed when its button is on screen; no other event issues a
  dispatch; two query texts that are equal after trimming give the same term.
\<close>

theorem dispatch_uses_trimmed_query:
  "issued (step Tick (run evs (mount initialApp))) =
     issued (run evs (mount initialApp)) @
       (if timerDue (run evs (mount initialApp)) then [trim (query (run evs (mount initialApp)))] else [])
   \<and> issued (step Refresh (run evs (mount initialApp))) =
       issued (run evs (mount initialApp)) @ [trim (query (run evs (mount initialApp)))]
   \<and> issued (step Retry (run evs (mount initialApp))) =
       issued (run evs (mount initialApp)) @
         (if retryShown (run evs (mount initialApp)) then [trim (query (run evs (mount initialApp)))] else [])
   \<and> issued (step (ChangeText t) (run evs (mount initialApp))) = issued (run evs (mount initialApp))
   \<and> issued (step (Resolve i fr) (run evs (mount initialApp))) = issued (run evs (mount initialApp))
   \<and> issued (step (Select r) (run evs (mount initialApp))) = issued (run evs (mount initialApp))
   \<and> (trim (query (run evs (mount initialApp))) = trim (query (run evs' (mount initialApp))) \<longrightarrow>
        last (issued (step Refresh (run evs (mount initialApp)))) =
        last (issued (step Refresh (run evs' (mount initialApp)))))"
proof (intro conjI impI)
  let ?s = "run evs (mount initialApp)"
  have i: "debounceInv ?s" by (rule debounceInv_reachable)
  show "issued (step Tick ?s) = issued ?s @ (if timerDue ?s then [trim (query ?s)] else [])"
    using tick_issued_exact [OF i] by simp
  show "issued (step Refresh ?s) = issued ?s @ [trim (query ?s)]" by simp
  show "issued (step Retry ?s) = issued ?s @ (if retryShown ?s then [trim (query ?s)] else [])"
    using retry_issued_exact [of ?s] by simp
  show "issued (step (ChangeText t) ?s) = issued ?s"
  proof (cases "t = query ?s")
    case True
    then show ?thesis by (simp add: setQuery_def)
  next
    case False
    from setQuery_arms(6) [OF i False] show ?thesis by simp
  qed
  show "issued (step (Resolve i fr) ?s) = issued ?s" by simp
  show "issued (step (Select r) ?s) = issued ?s" by simp
next
  assume "trim (query (run evs (mount initialApp))) = trim (query (run evs' (mount initialApp)))"
  then show "last (issued (step Refresh (run evs (mount initialApp)))) =
        last (issued (step Refresh (run evs' (mount initialApp))))"
    by simp
qed

theorem dispatch_uses_trimmed_query_witness:
  "timerDue (run (ChangeText (js '' pie '') # replicate 449 Tick) (mount initialApp))
   \<and> issued (step Tick (run (ChangeText (js '' pie '') # replicate 449 Tick) (mount initialApp))) =
       [js '''', js ''pie'']
   \<and> retryShown (run [Resolve 0 (FetchRejects (ErrorObj (js ''Network request failed''))),
                      ChangeText (js '' pie '')] (mount initialApp))
   \<and> issued (step Retry (run [Resolve 0 (FetchRejects (ErrorObj (js ''Network request failed''))),
                      ChangeText (js '' pie '')] (mount initialApp))) = [js '''', js ''pie'']
   \<and> issued (step Refresh (run [ChangeText (js '' pie '')] (mount initialApp))) = [js '''', js ''pie'']
   \<and> trim (query (run [ChangeText (js '' pie '')] (mount initialApp))) =
       trim (query (run [ChangeText (js ''pie'')] (mount initialApp)))
   \<and> last (issued (step Refresh (run [ChangeText (js ''pie'')] (mount initialApp)))) = js ''pie''"
proof -
  let ?e1 = "ChangeText (js '' pie '') # replicate 449 Tick"
  let ?e2 = "[Resolve 0 (FetchRejects (ErrorObj (js ''Network request failed''))), ChangeText (js '' pie '')]"
  let ?e3 = "[ChangeText (js '' pie '')]"
  let ?e4 = "[ChangeText (js ''pie'')]"
  have n: "js '' pie '' \<noteq> query (mount initialApp)" "js ''pie'' \<noteq> query (mount initialApp)"
    by (simp_all add: mount_fields js_def)
  note a = setQuery_arms [OF debounceInv_mount n(1)]
  note b = setQuery_arms [OF debounceInv_mount n(2)]
  have t: "trim (js '' pie '') = js ''pie''" "trim (js ''pie'') = js ''pie''"
    by (simp_all add: trim_def js_def is_space_def)
  have a1: "timers (setQuery (js '' pie '') (mount initialApp)) = [(1, 450, js '' pie '')]"
    using a(1) by (simp add: mount_fields)
  have "clock (setQuery (js '' pie '') (mount initialApp)) + 449 < 450"
    using a(5) by (simp add: mount_fields)
  from ticks_wait [OF a1 this] a(4,5,6)
  have w: "timers (run ?e1 (mount initialApp)) = [(1, 450, js '' pie '')]"
    "issued (run ?e1 (mount initialApp)) = [js '''']"
    "query (run ?e1 (mount initialApp)) = js '' pie ''"
    "clock (run ?e1 (mount initialApp)) = 449"
    by (simp_all add: mount_fields)
  from w(1,4) have d: "timerDue (run ?e1 (mount initialApp))" by (simp add: timerDue_def)
  let ?r = "resolve 0 (FetchRejects (ErrorObj (js ''Network request failed''))) (mount initialApp)"
  have r0: "status ?r = Error" "errorMessage ?r = Some (js ''Network request failed'')"
    "issued ?r = [js '''']" "query ?r = []"
    by (simp_all add: resolve_def fetchAndTrackSettle_def loadRecipesTry_def catchMessage_def Let_def
        mount_def debounceEffect_def initialApp_def fetchAndTrackStart_def)
  have ri: "debounceInv ?r" using debounceInv_step [OF debounceInv_mount, of "Resolve 0 (FetchRejects (ErrorObj (js ''Network request failed'')))"]
    by simp
  have rn: "js '' pie '' \<noteq> query ?r" using r0(4) by (simp add: js_def)
  note c = setQuery_arms [OF ri rn]
  have r2: "status (run ?e2 (mount initialApp)) = Error"
    "errorMessage (run ?e2 (mount initialApp)) = Some (js ''Network request failed'')"
    "issued (run ?e2 (mount initialApp)) = [js '''']"
    "query (run ?e2 (mount initialApp)) = js '' pie ''"
    using r0 c(4,6) by (simp_all add: setQuery_untouched)
  have ne: "js ''Network request failed'' \<noteq> []" by (simp add: js_def)
  from r2(1,2) ne have s: "retryShown (run ?e2 (mount initialApp))" by (simp add: retryShown_def)
  note k1 = dispatch_uses_trimmed_query [of ?e1]
  note k2 = dispatch_uses_trimmed_query [of ?e2]
  note k3 = dispatch_uses_trimmed_query [of ?e3 _ _ _ _ ?e4]
  from k1 d w(2,3) t have 1: "issued (step Tick (run ?e1 (mount initialApp))) = [js '''', js ''pie'']"
    by (simp del: run.simps step.simps)
  from k2 s r2(3,4) t have 2: "issued (step Retry (run ?e2 (mount initialApp))) = [js '''', js ''pie'']"
    by (simp del: run.simps step.simps)
  from k3 a(4,6) t have 3: "issued (step Refresh (run ?e3 (mount initialApp))) = [js '''', js ''pie'']"
    by (simp add: mount_fields)
  from a(4) b(4) t have 4: "trim (query (run ?e3 (mount initialApp))) = trim (query (run ?e4 (mount initialApp)))"
    by simp
  from k3 4 3 have 5: "last (issued (step Refresh (run ?e4 (mount initialApp)))) = js ''pie''"
    by (simp del: run.simps step.simps)
  from d s 1 2 3 4 5 show ?thesis by blast
qed

end
